theory Spec2Isabelle
  imports Main "HOL-Library.Word" "HOL-Library.Multiset"
begin

section \<open>ZeroesToBeginning.cc: moving the zeroes of an int array to its beginning\<close>

text \<open>
  The two movers of \<^verbatim>\<open>src/ZeroesToBeginning.cc\<close> take a raw pointer \<^verbatim>\<open>int array[]\<close> and a
  count \<^verbatim>\<open>const int array_size\<close>, mutate the pointed-to cells and return \<^verbatim>\<open>0\<close> or \<^verbatim>\<open>-1\<close>.
  The embedding keeps that calling convention: memory is an explicit store from addresses
  to cells, the pointer is an address, and what C++ leaves outside the returned value is a
  branch of the result:
  \<^item> a read or write of a cell the store does not hold is \<open>MemoryFault\<close>;
  \<^item> \<^verbatim>\<open>new int[array_size]()\<close> with a negative count is \<open>BadArrayNewLength\<close>
    (the exception of that name; no status is returned);
  \<^item> \<^verbatim>\<open>array_size - 1\<close> below the least \<^verbatim>\<open>int\<close> is \<open>SignedOverflow\<close>.

  An \<^verbatim>\<open>int\<close> is taken to be 32 bits wide. Array elements are 32-bit words: the code only
  copies them and compares them with zero. Counts and indices are mathematical integers,
  with the one subtraction that can leave the range of \<^verbatim>\<open>int\<close> checked. Addresses count
  cells, so \<^verbatim>\<open>array[i]\<close> is the cell at \<open>array + i\<close>. An allocation with a non-negative
  count is taken to succeed, and the release of the scratch buffer (\<^verbatim>\<open>delete output_array\<close>)
  has no effect a caller can see; neither is modelled.
\<close>

subsection \<open>Memory\<close>

type_synonym cint = "32 word"
type_synonym addr = int
type_synonym heap = "addr \<Rightarrow> cint option"

definition NULL :: addr where
  "NULL = 0"

definition INT_MIN :: int where
  "INT_MIN = - (2 ^ 31)"

datatype failure = MemoryFault | BadArrayNewLength | SignedOverflow

text \<open>An assignment to the cell at address \<open>a\<close>.\<close>

definition store :: "heap \<Rightarrow> addr \<Rightarrow> cint \<Rightarrow> failure + heap" where
  "store h a v = (case h a of None \<Rightarrow> Inl MemoryFault | Some _ \<Rightarrow> Inr (h(a \<mapsto> v)))"

text \<open>
  \<^verbatim>\<open>memcpy(array, output_array, array_size * sizeof(int))\<close>: the first \<open>array_size\<close> cells
  of the source buffer are written to consecutive cells from \<open>dst\<close> on.
\<close>

fun copy_cells :: "heap \<Rightarrow> addr \<Rightarrow> cint list \<Rightarrow> failure + heap" where
  "copy_cells h dst [] = Inr h"
| "copy_cells h dst (v # vs) =
     (case h dst of
        None \<Rightarrow> Inl MemoryFault
      | Some _ \<Rightarrow> copy_cells (h(dst \<mapsto> v)) (dst + 1) vs)"

definition memcpy :: "heap \<Rightarrow> addr \<Rightarrow> cint list \<Rightarrow> int \<Rightarrow> failure + heap" where
  "memcpy h dst src n = copy_cells h dst (take (nat n) src)"

subsection \<open>ZeroesToBeginningRuntimeOptimized\<close>

text \<open>
  The main loop \<^verbatim>\<open>for (int i = array_size - 1; i >= 0; --i)\<close>. The scratch buffer
  \<open>output_array\<close> is fresh storage of its own, so it is a list beside the store; a write
  outside it is a fault.
\<close>

function runtime_loop :: "heap \<Rightarrow> addr \<Rightarrow> cint list \<Rightarrow> int \<Rightarrow> int \<Rightarrow> failure + cint list" where
  "runtime_loop h array output_array next_output_array i =
     (if i \<ge> 0 then
        (case h (array + i) of
           None \<Rightarrow> Inl MemoryFault
         | Some v \<Rightarrow>
             if v \<noteq> 0 then
               (if 0 \<le> next_output_array \<and> next_output_array < int (length output_array) then
                  runtime_loop h array (output_array[nat next_output_array := v])
                    (next_output_array - 1) (i - 1)
                else Inl MemoryFault)
             else runtime_loop h array output_array next_output_array (i - 1))
      else Inr output_array)"
  by pat_completeness auto
termination
  by (relation "measure (\<lambda>(h, array, output_array, next_output_array, i). nat (i + 1))") auto

declare runtime_loop.simps [simp del]

definition ZeroesToBeginningRuntimeOptimized :: "heap \<Rightarrow> addr \<Rightarrow> int \<Rightarrow> failure + (int \<times> heap)" where
  "ZeroesToBeginningRuntimeOptimized h array array_size =
     (if array = NULL then Inr (- 1, h)
      else if array_size = 0 then Inr (- 1, h)
      else if array_size < 0 then Inl BadArrayNewLength
      else
        (case runtime_loop h array (replicate (nat array_size) 0)
                (array_size - 1) (array_size - 1) of
           Inl e \<Rightarrow> Inl e
         | Inr output_array \<Rightarrow>
             (case memcpy h array output_array array_size of
                Inl e \<Rightarrow> Inl e
              | Inr h' \<Rightarrow> Inr (0, h'))))"

subsection \<open>ZeroesToBeginningSpaceOptimized\<close>

text \<open>
  The inner loop \<^verbatim>\<open>while ((array[next_zero] == 0) && (i > next_zero)) ++next_zero;\<close>
  reads the cell before it compares the cursors. The last component counts the cursor
  advances made so far (\<^verbatim>\<open>++next_zero\<close> here, \<^verbatim>\<open>--i\<close> in the outer loop); the control flow
  never reads it.
\<close>

function space_inner :: "heap \<Rightarrow> addr \<Rightarrow> int \<Rightarrow> int \<Rightarrow> nat \<Rightarrow> failure + (int \<times> nat)" where
  "space_inner h array i next_zero steps =
     (case h (array + next_zero) of
        None \<Rightarrow> Inl MemoryFault
      | Some v \<Rightarrow>
          if v = 0 \<and> i > next_zero then space_inner h array i (next_zero + 1) (steps + 1)
          else Inr (next_zero, steps))"
  by pat_completeness auto
termination
  by (relation "measure (\<lambda>(h, array, i, next_zero, steps). nat (i - next_zero))") auto

declare space_inner.simps [simp del]

lemma space_inner_cursor:
  "space_inner h array i next_zero steps = Inr (next_zero', steps') \<Longrightarrow> next_zero \<le> next_zero'"
proof (induction h array i next_zero steps rule: space_inner.induct)
  case (1 h array i next_zero steps)
  then show ?case
    by (subst (asm) (2) space_inner.simps) (fastforce split: option.splits if_splits)
qed

text \<open>
  The outer loop \<^verbatim>\<open>for (int i = array_size - 1; i > next_zero; --i)\<close> with its body:
  the test of \<^verbatim>\<open>array[i]\<close>, the inner loop, then \<^verbatim>\<open>array[i] = array[next_zero]\<close> and
  \<^verbatim>\<open>array[next_zero] = 0\<close>.
\<close>

function space_outer :: "heap \<Rightarrow> addr \<Rightarrow> int \<Rightarrow> int \<Rightarrow> nat \<Rightarrow> failure + (heap \<times> nat)" where
  "space_outer h array i next_zero steps =
     (if i > next_zero then
        (case h (array + i) of
           None \<Rightarrow> Inl MemoryFault
         | Some v \<Rightarrow>
             if v = 0 then
               (case space_inner h array i next_zero steps of
                  Inl e \<Rightarrow> Inl e
                | Inr (next_zero', steps') \<Rightarrow>
                    (case h (array + next_zero') of
                       None \<Rightarrow> Inl MemoryFault
                     | Some w \<Rightarrow>
                         (case store h (array + i) w of
                            Inl e \<Rightarrow> Inl e
                          | Inr h1 \<Rightarrow>
                              (case store h1 (array + next_zero') 0 of
                                 Inl e \<Rightarrow> Inl e
                               | Inr h2 \<Rightarrow> space_outer h2 array (i - 1) next_zero' (steps' + 1)))))
             else space_outer h array (i - 1) next_zero (steps + 1))
      else Inr (h, steps))"
  by pat_completeness auto
termination
proof (relation "measure (\<lambda>(h, array, i, next_zero, steps). nat (i - next_zero))", goal_cases)
  case 1
  show ?case by simp
next
  case (2 h array i next_zero steps v r nz' s' w h1 h2)
  then have "next_zero \<le> nz'"
    using space_inner_cursor by metis
  with 2 show ?case by simp
next
  case 3
  then show ?case by simp
qed

declare space_outer.simps [simp del]

definition ZeroesToBeginningSpaceOptimized :: "heap \<Rightarrow> addr \<Rightarrow> int \<Rightarrow> failure + (int \<times> heap)" where
  "ZeroesToBeginningSpaceOptimized h array array_size =
     (if array = NULL then Inr (- 1, h)
      else if array_size = 0 then Inr (- 1, h)
      else if array_size - 1 < INT_MIN then Inl SignedOverflow
      else
        (case space_outer h array (array_size - 1) 0 0 of
           Inl e \<Rightarrow> Inl e
         | Inr (h', steps) \<Rightarrow> Inr (0, h')))"

subsection \<open>Arrays in memory\<close>

text \<open>
  \<open>is_array h array n\<close>: the store holds the \<open>n\<close> cells \<^verbatim>\<open>array[0]\<close> .. \<^verbatim>\<open>array[n - 1]\<close>;
  \<open>array_contents\<close> reads them as a list. \<open>valid_input\<close> is the precondition of a
  successful call: a non-null pointer to at least one cell, with the count matching.
\<close>

definition is_array :: "heap \<Rightarrow> addr \<Rightarrow> int \<Rightarrow> bool" where
  "is_array h array n = (\<forall>k\<in>{0..<n}. h (array + k) \<noteq> None)"

definition array_contents :: "heap \<Rightarrow> addr \<Rightarrow> int \<Rightarrow> cint list" where
  "array_contents h array n = map (\<lambda>k. the (h (array + int k))) [0..<nat n]"

definition valid_input :: "heap \<Rightarrow> addr \<Rightarrow> int \<Rightarrow> bool" where
  "valid_input h array n = (array \<noteq> NULL \<and> 1 \<le> n \<and> is_array h array n)"

text \<open>The store that agrees with \<open>h\<close> except that the cells from \<open>array\<close> on hold \<open>vs\<close>.\<close>

definition write_array :: "heap \<Rightarrow> addr \<Rightarrow> cint list \<Rightarrow> heap" where
  "write_array h array vs =
     (\<lambda>a. if array \<le> a \<and> a < array + int (length vs) then Some (vs ! nat (a - array)) else h a)"

text \<open>A store holding nothing but the array \<open>vs\<close> at \<open>array\<close>.\<close>

definition heap_of :: "addr \<Rightarrow> cint list \<Rightarrow> heap" where
  "heap_of array vs = write_array (\<lambda>a. None) array vs"

subsection \<open>The properties\<close>

definition zero_count :: "cint list \<Rightarrow> nat" where
  "zero_count xs = length (filter (\<lambda>x. x = 0) xs)"

text \<open>Indices below \<open>z\<close> hold zero, the indices from \<open>z\<close> on hold a non-zero value.\<close>

definition zero_prefix :: "nat \<Rightarrow> cint list \<Rightarrow> bool" where
  "zero_prefix z ys =
     (\<forall>k\<in>{0..<length ys}. (k < z \<longrightarrow> ys ! k = 0) \<and> (z \<le> k \<longrightarrow> ys ! k \<noteq> 0))"

text \<open>
  What a caller can observe of a call: the failure, or the returned status together with
  the \<open>n\<close> cells from \<open>array\<close> on as the call left them.
\<close>

definition cells :: "heap \<Rightarrow> addr \<Rightarrow> int \<Rightarrow> cint option list" where
  "cells h array n = map (\<lambda>k. h (array + int k)) [0..<nat n]"

definition outcome :: "failure + (int \<times> heap) \<Rightarrow> addr \<Rightarrow> int \<Rightarrow> failure + (int \<times> cint option list)" where
  "outcome r array n =
     (case r of Inl e \<Rightarrow> Inl e | Inr (status, h') \<Rightarrow> Inr (status, cells h' array n))"

subsection \<open>The scratch-buffer construction in the specification's words\<close>

text \<open>
  Section 4.1 of the specification, not the source: a same-length scratch container,
  zero-initialized; the input walked from the last index to the first; a write cursor
  starting at \<open>size - 1\<close>; each non-zero element placed at the cursor, which is then
  decremented. \<open>spec_scratch_fill\<close> takes the elements in the order of the walk.
\<close>

fun spec_scratch_fill :: "cint list \<Rightarrow> cint list \<Rightarrow> int \<Rightarrow> cint list" where
  "spec_scratch_fill [] scratch cursor = scratch"
| "spec_scratch_fill (v # vs) scratch cursor =
     (if v \<noteq> 0 then spec_scratch_fill vs (scratch[nat cursor := v]) (cursor - 1)
      else spec_scratch_fill vs scratch cursor)"

definition spec_scratch_buffer :: "cint list \<Rightarrow> cint list" where
  "spec_scratch_buffer xs =
     spec_scratch_fill (rev xs) (replicate (length xs) 0) (int (length xs) - 1)"

section \<open>Verification\<close>

subsection \<open>Cells and bulk copy\<close>

lemma copy_cells_ok:
  "(\<forall>k<length vs. h (dst + int k) \<noteq> None) \<Longrightarrow> copy_cells h dst vs = Inr (write_array h dst vs)"
proof (induction vs arbitrary: h dst)
  case Nil
  then show ?case by (auto simp: write_array_def fun_eq_iff)
next
  case (Cons v vs)
  from Cons.prems have "h dst \<noteq> None" by force
  then obtain u where u: "h dst = Some u" by blast
  have "\<forall>k<length vs. (h(dst \<mapsto> v)) (dst + 1 + int k) \<noteq> None"
  proof (intro allI impI)
    fix k assume "k < length vs"
    then have "h (dst + int (Suc k)) \<noteq> None"
      using Cons.prems [rule_format, of "Suc k"] by simp
    then show "(h(dst \<mapsto> v)) (dst + 1 + int k) \<noteq> None"
      by (simp add: add.assoc)
  qed
  from Cons.IH [OF this] have "copy_cells (h(dst \<mapsto> v)) (dst + 1) vs = Inr (write_array (h(dst \<mapsto> v)) (dst + 1) vs)" .
  moreover have "write_array (h(dst \<mapsto> v)) (dst + 1) vs = write_array h dst (v # vs)"
    by (rule ext) (auto simp: write_array_def nth_Cons' intro!: arg_cong [where f = "nth vs"])
  ultimately show ?case using u by simp
qed

lemma array_contents_Suc:
  "0 \<le> i \<Longrightarrow> array_contents h p (i + 1) = array_contents h p i @ [the (h (p + i))]"
  by (simp add: array_contents_def nat_add_distrib)

lemma length_array_contents [simp]: "length (array_contents h p n) = nat n"
  by (simp add: array_contents_def)

lemma runtime_loop_closed:
  assumes "\<forall>k. 0 \<le> k \<and> k \<le> i \<longrightarrow> h (p + k) \<noteq> None"
    and "i \<le> next" and "next < int (length out)" and "- 1 \<le> i"
  shows "runtime_loop h p out next i =
           Inr (take (nat (next + 1) - length (filter (\<lambda>v. v \<noteq> 0) (array_contents h p (i + 1)))) out
                @ filter (\<lambda>v. v \<noteq> 0) (array_contents h p (i + 1))
                @ drop (nat (next + 1)) out)"
  using assms
proof (induction h p out "next" i rule: runtime_loop.induct)
  case (1 h p out nxt i)
  show ?case
  proof (cases "0 \<le> i")
    case False
    with 1(6) have "i = - 1" by simp
    then show ?thesis
      by (subst runtime_loop.simps) (simp add: array_contents_def)
  next
    case True
    with 1(3) obtain v where v: "h (p + i) = Some v" by fastforce
    have pre: "\<forall>k. 0 \<le> k \<and> k \<le> i - 1 \<longrightarrow> h (p + k) \<noteq> None"
      using 1(3) by simp
    have split: "array_contents h p (i + 1) = array_contents h p i @ [v]"
      using True v by (simp add: array_contents_Suc)
    let ?nz = "filter (\<lambda>v. v \<noteq> 0) (array_contents h p i)"
    have len: "length ?nz \<le> nat i"
      by (metis length_filter_le length_array_contents)
    show ?thesis
    proof (cases "v = 0")
      case True
      have "runtime_loop h p out nxt (i - 1) =
              Inr (take (nat (nxt + 1) - length ?nz) out @ ?nz @ drop (nat (nxt + 1)) out)"
        using "1.IH"(2) [OF \<open>0 \<le> i\<close> v _ pre] True 1(4,5) \<open>0 \<le> i\<close> by simp
      then show ?thesis
        using True v \<open>0 \<le> i\<close> split by (subst runtime_loop.simps) simp
    next
      case False
      have inb: "0 \<le> nxt \<and> nxt < int (length out)"
        using 1(4,5) \<open>0 \<le> i\<close> by simp
      have "runtime_loop h p (out[nat nxt := v]) (nxt - 1) (i - 1) =
              Inr (take (nat (nxt - 1 + 1) - length ?nz) (out[nat nxt := v]) @ ?nz
                   @ drop (nat (nxt - 1 + 1)) (out[nat nxt := v]))"
        using "1.IH"(1) [OF \<open>0 \<le> i\<close> v _ inb pre] False 1(4,5) \<open>0 \<le> i\<close> by simp
      moreover have "drop (nat nxt) (out[nat nxt := v]) = v # drop (nat (nxt + 1)) out"
        proof -
        have n: "nat nxt < length out" using inb by (simp add: nat_less_iff)
        then have "nat nxt < length (out[nat nxt := v])" by simp
        from Cons_nth_drop_Suc [OF this] show ?thesis
          using inb n by (simp add: nat_add_distrib)
      qed
      moreover have "take (nat nxt - length ?nz) (out[nat nxt := v]) = take (nat (nxt + 1) - Suc (length ?nz)) out"
        using inb by (simp add: nat_add_distrib)
      ultimately show ?thesis
        using False v \<open>0 \<le> i\<close> split inb by (subst runtime_loop.simps) simp
    qed
  qed
qed

subsection \<open>The runtime-optimized mover\<close>

lemma array_contents_write_array:
  "array_contents (write_array h p vs) p (int (length vs)) = vs"
  by (rule nth_equalityI) (simp_all add: array_contents_def write_array_def)

lemma is_array_write_array: "is_array (write_array h p vs) p (int (length vs))"
  by (simp add: is_array_def write_array_def)

lemma write_array_frame: "a < p \<or> p + int (length vs) \<le> a \<Longrightarrow> write_array h p vs a = h a"
  by (auto simp: write_array_def)

lemma zero_count_compl: "zero_count xs + length (filter (\<lambda>v. v \<noteq> 0) xs) = length xs"
  unfolding zero_count_def using sum_length_filter_compl [of "\<lambda>x. x = 0" xs] by simp

lemma is_array_cells: "is_array h p n \<Longrightarrow> 0 \<le> k \<Longrightarrow> k < n \<Longrightarrow> h (p + k) \<noteq> None"
  by (simp add: is_array_def)

lemma runtime_result:
  assumes "valid_input h p n"
  shows "ZeroesToBeginningRuntimeOptimized h p n =
           Inr (0, write_array h p (replicate (zero_count (array_contents h p n)) 0
                                    @ filter (\<lambda>v. v \<noteq> 0) (array_contents h p n)))"
proof -
  let ?xs = "array_contents h p n"
  let ?nz = "filter (\<lambda>v. v \<noteq> 0) ?xs"
  let ?out = "replicate (zero_count ?xs) 0 @ ?nz"
  from assms have p: "p \<noteq> NULL" and n: "1 \<le> n" and arr: "is_array h p n"
    by (simp_all add: valid_input_def)
  have cells: "\<forall>k. 0 \<le> k \<and> k \<le> n - 1 \<longrightarrow> h (p + k) \<noteq> None"
    using arr by (simp add: is_array_def)
  have zc: "nat n - length ?nz = zero_count ?xs"
    using zero_count_compl [of ?xs] by simp
  have "runtime_loop h p (replicate (nat n) 0) (n - 1) (n - 1) =
          Inr (take (nat (n - 1 + 1) - length (filter (\<lambda>v. v \<noteq> 0) (array_contents h p (n - 1 + 1))))
                 (replicate (nat n) 0)
               @ filter (\<lambda>v. v \<noteq> 0) (array_contents h p (n - 1 + 1))
               @ drop (nat (n - 1 + 1)) (replicate (nat n) 0))"
    using n by (intro runtime_loop_closed cells) simp_all
  then have loop: "runtime_loop h p (replicate (nat n) 0) (n - 1) (n - 1) = Inr ?out"
    using zc by simp
  have len: "length ?out = nat n"
    using zero_count_compl [of ?xs] by simp
  have "\<forall>k<length ?out. h (p + int k) \<noteq> None"
    using arr len by (simp add: is_array_def)
  then have "copy_cells h p ?out = Inr (write_array h p ?out)"
    by (rule copy_cells_ok)
  then have "memcpy h p ?out n = Inr (write_array h p ?out)"
    using len by (simp add: memcpy_def)
  with loop p n show ?thesis
    by (simp add: ZeroesToBeginningRuntimeOptimized_def)
qed

subsection \<open>The space-optimized mover: one iteration\<close>

lemma array_contents_update:
  assumes "0 \<le> j" and "j < n"
  shows "array_contents (h(p + j \<mapsto> v)) p n = (array_contents h p n)[nat j := v]"
proof (rule nth_equalityI)
  show "length (array_contents (h(p + j \<mapsto> v)) p n) = length ((array_contents h p n)[nat j := v])"
    by simp
next
  fix k assume "k < length (array_contents (h(p + j \<mapsto> v)) p n)"
  then have k: "k < nat n" by simp
  show "array_contents (h(p + j \<mapsto> v)) p n ! k = (array_contents h p n)[nat j := v] ! k"
  proof (cases "k = nat j")
    case True
    with k assms show ?thesis by (simp add: array_contents_def)
  next
    case False
    with assms have "int k \<noteq> j" by auto
    with k False show ?thesis by (simp add: array_contents_def)
  qed
qed

lemma array_contents_nth:
  "0 \<le> k \<Longrightarrow> k < n \<Longrightarrow> array_contents h p n ! nat k = the (h (p + k))"
  by (simp add: array_contents_def nat_less_iff)

lemma space_inner_result:
  assumes "\<forall>k. 0 \<le> k \<and> k < n \<longrightarrow> h (p + k) \<noteq> None"
    and "0 \<le> nz" and "nz \<le> i" and "i < n"
  shows "\<exists>nz'. space_inner h p i nz c = Inr (nz', c + nat (nz' - nz)) \<and> nz \<le> nz' \<and> nz' \<le> i
           \<and> (\<forall>k. nz \<le> k \<and> k < nz' \<longrightarrow> h (p + k) = Some 0)
           \<and> (nz' < i \<longrightarrow> h (p + nz') \<noteq> Some 0)"
  using assms
proof (induction h p i nz c rule: space_inner.induct)
  case (1 h p i nz c)
  from 1(2-5) obtain v where v: "h (p + nz) = Some v" by fastforce
  show ?case
  proof (cases "v = 0 \<and> nz < i")
    case True
    from "1.IH" [OF v _ 1(2)] True 1(3-5)
    obtain nz' where r: "space_inner h p i (nz + 1) (c + 1) = Inr (nz', c + 1 + nat (nz' - (nz + 1)))"
      and b: "nz + 1 \<le> nz'" "nz' \<le> i"
      and z: "\<forall>k. nz + 1 \<le> k \<and> k < nz' \<longrightarrow> h (p + k) = Some 0"
      and e: "nz' < i \<longrightarrow> h (p + nz') \<noteq> Some 0"
      by auto
    have c: "c + 1 + nat (nz' - (nz + 1)) = c + nat (nz' - nz)"
      using b by simp
    have "space_inner h p i nz c = Inr (nz', c + nat (nz' - nz))"
      using True v r c by (subst space_inner.simps) simp
    moreover have "\<forall>k. nz \<le> k \<and> k < nz' \<longrightarrow> h (p + k) = Some 0"
    proof (intro allI impI)
      fix k assume "nz \<le> k \<and> k < nz'"
      then consider "k = nz" | "nz + 1 \<le> k \<and> k < nz'" by linarith
      then show "h (p + k) = Some 0" using v True z by cases auto
    qed
    ultimately show ?thesis using b e by auto
  next
    case False
    then have "space_inner h p i nz c = Inr (nz, c)"
      using v by (subst space_inner.simps) auto
    moreover have "nz < i \<longrightarrow> h (p + nz) \<noteq> Some 0"
      using False v by auto
    ultimately show ?thesis using 1(4) by auto
  qed
qed

lemma space_outer_exit: "\<not> nz < i \<Longrightarrow> space_outer h p i nz c = Inr (h, c)"
  by (subst space_outer.simps) simp

lemma space_outer_skip:
  "nz < i \<Longrightarrow> h (p + i) = Some v \<Longrightarrow> v \<noteq> 0 \<Longrightarrow>
   space_outer h p i nz c = space_outer h p (i - 1) nz (c + 1)"
  by (subst space_outer.simps) simp

lemma space_outer_swap:
  "nz < i \<Longrightarrow> h (p + i) = Some 0 \<Longrightarrow> space_inner h p i nz c = Inr (nz', c') \<Longrightarrow>
   h (p + nz') = Some w \<Longrightarrow>
   space_outer h p i nz c = space_outer (h(p + i \<mapsto> w, p + nz' \<mapsto> 0)) p (i - 1) nz' (c' + 1)"
  by (subst space_outer.simps) (simp add: store_def)

subsection \<open>The space-optimized mover: the loop invariant\<close>

lemma space_exit_post:
  fixes h :: heap
  assumes b: "0 \<le> nz" "nz \<le> i + 1" "nz < n" "\<not> nz < i"
    and zeros: "\<forall>k. 0 \<le> k \<and> k < nz \<longrightarrow> h (p + k) = Some 0"
    and nonz: "\<forall>k. i < k \<and> nz < k \<and> k < n \<longrightarrow> h (p + k) \<noteq> Some 0"
    and edge: "nz = i + 1 \<longrightarrow> h (p + nz) = Some 0"
  shows "\<exists>z. 0 \<le> z \<and> z \<le> n \<and> (\<forall>k. 0 \<le> k \<and> k < n \<longrightarrow> (h (p + k) = Some 0) = (k < z))"
proof (cases "h (p + nz) = Some 0")
  case True
  have "\<forall>k. 0 \<le> k \<and> k < n \<longrightarrow> (h (p + k) = Some 0) = (k < nz + 1)"
  proof (intro allI impI)
    fix k assume k: "0 \<le> k \<and> k < n"
    consider "k < nz" | "k = nz" | "nz < k" by fastforce
    then show "(h (p + k) = Some 0) = (k < nz + 1)"
    proof cases
      case 1 with k zeros show ?thesis by simp
    next
      case 2 with True show ?thesis by simp
    next
      case 3
      with b have "i < k" by simp
      with 3 k nonz show ?thesis by simp
    qed
  qed
  with b show ?thesis by (intro exI [of _ "nz + 1"]) simp
next
  case False
  with edge have "nz \<noteq> i + 1" by blast
  with b have i: "i = nz" by linarith
  have "\<forall>k. 0 \<le> k \<and> k < n \<longrightarrow> (h (p + k) = Some 0) = (k < nz)"
  proof (intro allI impI)
    fix k assume k: "0 \<le> k \<and> k < n"
    consider "k < nz" | "k = nz" | "nz < k" by fastforce
    then show "(h (p + k) = Some 0) = (k < nz)"
    proof cases
      case 1 with k zeros show ?thesis by simp
    next
      case 2 with False show ?thesis by simp
    next
      case 3 with i k nonz show ?thesis by simp
    qed
  qed
  with b show ?thesis by (intro exI [of _ nz]) simp
qed

lemma space_outer_correct:
  assumes valid: "\<forall>k. 0 \<le> k \<and> k < n \<longrightarrow> h (p + k) \<noteq> None"
    and b: "0 \<le> nz" "nz \<le> i + 1" "i < n" "nz < n"
    and zeros: "\<forall>k. 0 \<le> k \<and> k < nz \<longrightarrow> h (p + k) = Some 0"
    and nonz: "\<forall>k. i < k \<and> nz < k \<and> k < n \<longrightarrow> h (p + k) \<noteq> Some 0"
    and edge: "nz = i + 1 \<longrightarrow> h (p + nz) = Some 0"
  shows "\<exists>h' c' z. space_outer h p i nz c = Inr (h', c') \<and> c' \<le> c + nat (i - nz + 1)
        \<and> (\<forall>k. 0 \<le> k \<and> k < n \<longrightarrow> h' (p + k) \<noteq> None)
        \<and> (\<forall>a. a < p \<or> p + n \<le> a \<longrightarrow> h' a = h a)
        \<and> mset (array_contents h' p n) = mset (array_contents h p n)
        \<and> 0 \<le> z \<and> z \<le> n \<and> (\<forall>k. 0 \<le> k \<and> k < n \<longrightarrow> (h' (p + k) = Some 0) = (k < z))"
  using assms
proof (induction "nat (i + 1)" arbitrary: h i nz c)
  case 0
  then have ex: "\<not> nz < i" by simp
  from space_exit_post [OF "0.prems"(2,3,5) ex "0.prems"(6,7,8)]
  obtain z where "0 \<le> z \<and> z \<le> n \<and> (\<forall>k. 0 \<le> k \<and> k < n \<longrightarrow> (h (p + k) = Some 0) = (k < z))" ..
  with "0.prems"(1) space_outer_exit [OF ex, of h p c] show ?case by auto
next
  case (Suc m)
  note valid = Suc.prems(1) and b = Suc.prems(2-5) and zeros = Suc.prems(6)
    and nonz = Suc.prems(7) and edge = Suc.prems(8)
  show ?case
  proof (cases "nz < i")
    case False
    from space_exit_post [OF b(1,2,4) False zeros nonz edge]
    obtain z where "0 \<le> z \<and> z \<le> n \<and> (\<forall>k. 0 \<le> k \<and> k < n \<longrightarrow> (h (p + k) = Some 0) = (k < z))" ..
    with valid space_outer_exit [OF False, of h p c] show ?thesis by auto
  next
    case True
    have m: "m = nat (i - 1 + 1)" using Suc.hyps(2) by simp
    from valid b True obtain v where v: "h (p + i) = Some v" by fastforce
    show ?thesis
    proof (cases "v = 0")
      case False
      have nonz': "\<forall>k. i - 1 < k \<and> nz < k \<and> k < n \<longrightarrow> h (p + k) \<noteq> Some 0"
      proof (intro allI impI)
        fix k assume k: "i - 1 < k \<and> nz < k \<and> k < n"
        then consider "k = i" | "i < k" by linarith
        then show "h (p + k) \<noteq> Some 0" using v False nonz k by cases auto
      qed
      have edge': "nz = i - 1 + 1 \<longrightarrow> h (p + nz) = Some 0" using True by simp
      have b': "0 \<le> nz" "nz \<le> i - 1 + 1" "i - 1 < n" "nz < n" using b True by simp_all
      from Suc.hyps(1) [OF m valid b' zeros nonz' edge', of "c + 1"]
      obtain h' c' z where r: "space_outer h p (i - 1) nz (c + 1) = Inr (h', c')"
        and c: "c' \<le> c + 1 + nat (i - 1 - nz + 1)"
        and rest: "(\<forall>k. 0 \<le> k \<and> k < n \<longrightarrow> h' (p + k) \<noteq> None)"
          "(\<forall>a. a < p \<or> p + n \<le> a \<longrightarrow> h' a = h a)"
          "mset (array_contents h' p n) = mset (array_contents h p n)"
          "0 \<le> z" "z \<le> n" "(\<forall>k. 0 \<le> k \<and> k < n \<longrightarrow> (h' (p + k) = Some 0) = (k < z))"
        by blast
      have "space_outer h p i nz c = Inr (h', c')"
        using space_outer_skip [of nz i h p v c] True v False r by simp
      moreover have "c' \<le> c + nat (i - nz + 1)" using c True by simp
      ultimately show ?thesis using rest by blast
    next
      case v0: True
      from space_inner_result [OF valid b(1) _ b(3), of c] True
      obtain nz' where inner: "space_inner h p i nz c = Inr (nz', c + nat (nz' - nz))"
        and nb: "nz \<le> nz'" "nz' \<le> i"
        and iz: "\<forall>k. nz \<le> k \<and> k < nz' \<longrightarrow> h (p + k) = Some 0"
        and ie: "nz' < i \<longrightarrow> h (p + nz') \<noteq> Some 0"
        by auto
      from valid b nb obtain w where w: "h (p + nz') = Some w" by fastforce
      let ?h2 = "h(p + i \<mapsto> w, p + nz' \<mapsto> 0)"
      have step: "space_outer h p i nz c = space_outer ?h2 p (i - 1) nz' (c + nat (nz' - nz) + 1)"
        using space_outer_swap [of nz i h p c nz' "c + nat (nz' - nz)" w] True inner w v v0 by simp
      have valid2: "\<forall>k. 0 \<le> k \<and> k < n \<longrightarrow> ?h2 (p + k) \<noteq> None"
        using valid by simp
      have b2: "0 \<le> nz'" "nz' \<le> i - 1 + 1" "i - 1 < n" "nz' < n"
        using b nb by simp_all
      have zeros2: "\<forall>k. 0 \<le> k \<and> k < nz' \<longrightarrow> ?h2 (p + k) = Some 0"
      proof (intro allI impI)
        fix k assume k: "0 \<le> k \<and> k < nz'"
        then consider "k < nz" | "nz \<le> k \<and> k < nz'" by linarith
        then have "h (p + k) = Some 0" using zeros iz k by cases auto
        then show "?h2 (p + k) = Some 0" using k nb by simp
      qed
      have nonz2: "\<forall>k. i - 1 < k \<and> nz' < k \<and> k < n \<longrightarrow> ?h2 (p + k) \<noteq> Some 0"
      proof (intro allI impI)
        fix k assume k: "i - 1 < k \<and> nz' < k \<and> k < n"
        then consider "k = i" | "i < k" by linarith
        then show "?h2 (p + k) \<noteq> Some 0"
        proof cases
          case 1
          with k ie w have "w \<noteq> 0" by auto
          with 1 k show ?thesis by simp
        next
          case 2
          with k nb True nonz have "h (p + k) \<noteq> Some 0" by simp
          with 2 k nb show ?thesis by simp
        qed
      qed
      have edge2: "nz' = i - 1 + 1 \<longrightarrow> ?h2 (p + nz') = Some 0" by simp
      from Suc.hyps(1) [OF m valid2 b2 zeros2 nonz2 edge2, of "c + nat (nz' - nz) + 1"]
      obtain h' c' z where r: "space_outer ?h2 p (i - 1) nz' (c + nat (nz' - nz) + 1) = Inr (h', c')"
        and c: "c' \<le> c + nat (nz' - nz) + 1 + nat (i - 1 - nz' + 1)"
        and v': "(\<forall>k. 0 \<le> k \<and> k < n \<longrightarrow> h' (p + k) \<noteq> None)"
        and f': "(\<forall>a. a < p \<or> p + n \<le> a \<longrightarrow> h' a = ?h2 a)"
        and m': "mset (array_contents h' p n) = mset (array_contents ?h2 p n)"
        and z': "0 \<le> z" "z \<le> n" "(\<forall>k. 0 \<le> k \<and> k < n \<longrightarrow> (h' (p + k) = Some 0) = (k < z))"
        by blast
      have res: "space_outer h p i nz c = Inr (h', c')" using step r by simp
      have cnt: "c' \<le> c + nat (i - nz + 1)" using c nb True by simp
      have frame: "\<forall>a. a < p \<or> p + n \<le> a \<longrightarrow> h' a = h a"
      proof (intro allI impI)
        fix a assume a: "a < p \<or> p + n \<le> a"
        with b b2 have "a \<noteq> p + i" "a \<noteq> p + nz'" by auto
        then have "?h2 a = h a" by simp
        with f' a show "h' a = h a" by metis
      qed
      let ?xs = "array_contents h p n"
      have i0: "0 \<le> i" using b True by simp
      have "array_contents ?h2 p n = ?xs[nat i := w, nat nz' := 0]"
        using i0 b b2 by (simp add: array_contents_update)
      moreover have "?xs ! nat i = 0"
        using array_contents_nth [OF i0 b(3), of h p] v v0 by simp
      moreover have "?xs ! nat nz' = w"
        using array_contents_nth [OF b2(1,4), of h p] w by simp
      ultimately have "array_contents ?h2 p n = ?xs[nat i := ?xs ! nat nz', nat nz' := ?xs ! nat i]"
        by simp
      moreover have "nat i < length ?xs" "nat nz' < length ?xs"
        using i0 b b2 by (simp_all add: nat_less_iff)
      ultimately have "mset (array_contents ?h2 p n) = mset ?xs"
        by (simp add: mset_swap)
      with m' have ms: "mset (array_contents h' p n) = mset ?xs" by simp
      from res cnt v' frame ms z' show ?thesis by blast
    qed
  qed
qed

subsection \<open>Zero counts, zero prefixes and the space-optimized mover as a whole\<close>

lemma zero_count_mset: "mset xs = mset ys \<Longrightarrow> zero_count xs = zero_count ys"
proof -
  assume "mset xs = mset ys"
  then have "size (filter_mset (\<lambda>x. x = 0) (mset xs)) = size (filter_mset (\<lambda>x. x = 0) (mset ys))"
    by simp
  then show ?thesis
    unfolding zero_count_def by (simp only: mset_filter [symmetric] size_mset)
qed

lemma zero_prefix_iff:
  "zero_prefix z ys = (\<forall>k<length ys. (ys ! k = 0) = (k < z))"
  unfolding zero_prefix_def by (simp add: Ball_def) (metis not_le)

lemma zero_prefix_count:
  "zero_prefix z ys \<Longrightarrow> z \<le> length ys \<Longrightarrow> zero_count ys = z"
proof (induction ys arbitrary: z)
  case Nil
  then show ?case by (simp add: zero_count_def)
next
  case (Cons y ys)
  show ?case
  proof (cases z)
    case 0
    with Cons.prems(1) have "\<forall>k<length (y # ys). (y # ys) ! k \<noteq> 0"
      by (simp add: zero_prefix_iff)
    then have "\<forall>x\<in>set (y # ys). x \<noteq> 0"
      by (metis in_set_conv_nth)
    then have "filter (\<lambda>x. x = 0) (y # ys) = []"
      by (simp add: filter_empty_conv)
    with 0 show ?thesis by (simp add: zero_count_def)
  next
    case (Suc z')
    from Cons.prems(1) have all: "\<forall>k<length (y # ys). ((y # ys) ! k = 0) = (k < z)"
      by (simp add: zero_prefix_iff)
    from all Suc have y: "y = 0" by fastforce
    have "zero_prefix z' ys"
      unfolding zero_prefix_iff
    proof (intro allI impI)
      fix k assume "k < length ys"
      with all [rule_format, of "Suc k"] Suc show "(ys ! k = 0) = (k < z')" by simp
    qed
    with Cons.IH [of z'] Cons.prems(2) Suc have "zero_count ys = z'" by simp
    with y Suc show ?thesis by (simp add: zero_count_def)
  qed
qed

lemma zero_prefix_replicate:
  assumes "0 \<notin> set vs"
  shows "zero_prefix z (replicate z 0 @ vs)"
  using assms
  unfolding zero_prefix_def
proof (intro ballI impI conjI)
  fix k assume "k \<in> {0..<length (replicate z 0 @ vs)}" and "k < z"
  then show "(replicate z 0 @ vs) ! k = 0" by (simp add: nth_append)
next
  fix k assume nz: "0 \<notin> set vs" and k: "k \<in> {0..<length (replicate z 0 @ vs)}" and z: "z \<le> k"
  then have "k - z < length vs" by auto
  then have "vs ! (k - z) \<in> set vs" by (rule nth_mem)
  with nz have "vs ! (k - z) \<noteq> 0" by metis
  with z show "(replicate z 0 @ vs) ! k \<noteq> 0" by (simp add: nth_append)
qed

lemma space_result:
  assumes "valid_input h p n"
  shows "\<exists>h' c. space_outer h p (n - 1) 0 0 = Inr (h', c) \<and> c \<le> nat n
           \<and> ZeroesToBeginningSpaceOptimized h p n = Inr (0, h')
           \<and> is_array h' p n
           \<and> (\<forall>a. a < p \<or> p + n \<le> a \<longrightarrow> h' a = h a)
           \<and> mset (array_contents h' p n) = mset (array_contents h p n)
           \<and> zero_prefix (zero_count (array_contents h p n)) (array_contents h' p n)"
proof -
  from assms have p: "p \<noteq> NULL" and n: "1 \<le> n" and arr: "is_array h p n"
    by (simp_all add: valid_input_def)
  have valid: "\<forall>k. 0 \<le> k \<and> k < n \<longrightarrow> h (p + k) \<noteq> None"
    using arr by (simp add: is_array_def)
  have "\<exists>h' c' z. space_outer h p (n - 1) 0 0 = Inr (h', c') \<and> c' \<le> 0 + nat (n - 1 - 0 + 1)
        \<and> (\<forall>k. 0 \<le> k \<and> k < n \<longrightarrow> h' (p + k) \<noteq> None)
        \<and> (\<forall>a. a < p \<or> p + n \<le> a \<longrightarrow> h' a = h a)
        \<and> mset (array_contents h' p n) = mset (array_contents h p n)
        \<and> 0 \<le> z \<and> z \<le> n \<and> (\<forall>k. 0 \<le> k \<and> k < n \<longrightarrow> (h' (p + k) = Some 0) = (k < z))"
    using n by (intro space_outer_correct valid) auto
  then obtain h' c' z where r: "space_outer h p (n - 1) 0 0 = Inr (h', c')"
    and c: "c' \<le> nat n"
    and v': "\<forall>k. 0 \<le> k \<and> k < n \<longrightarrow> h' (p + k) \<noteq> None"
    and f': "\<forall>a. a < p \<or> p + n \<le> a \<longrightarrow> h' a = h a"
    and m': "mset (array_contents h' p n) = mset (array_contents h p n)"
    and z: "0 \<le> z" "z \<le> n" "\<forall>k. 0 \<le> k \<and> k < n \<longrightarrow> (h' (p + k) = Some 0) = (k < z)"
    by auto
  let ?ys = "array_contents h' p n"
  have zp: "zero_prefix (nat z) ?ys"
    unfolding zero_prefix_iff
  proof (intro allI impI)
    fix k assume "k < length ?ys"
    then have k: "k < nat n" by simp
    then have kn: "int k < n" by simp
    from v' kn obtain u where u: "h' (p + int k) = Some u" by fastforce
    have "?ys ! k = u" using k u by (simp add: array_contents_def)
    moreover have "(h' (p + int k) = Some 0) = (int k < z)" using z(3) kn by simp
    ultimately show "(?ys ! k = 0) = (k < nat z)" using u z(1) by auto
  qed
  have "nat z \<le> length ?ys" using z by simp
  with zp have "zero_count ?ys = nat z" by (rule zero_prefix_count)
  with zero_count_mset [OF m'] have "zero_count (array_contents h p n) = nat z" by simp
  with zp have "zero_prefix (zero_count (array_contents h p n)) ?ys" by simp
  moreover have "ZeroesToBeginningSpaceOptimized h p n = Inr (0, h')"
    using p n r by (simp add: ZeroesToBeginningSpaceOptimized_def INT_MIN_def)
  moreover have "is_array h' p n" using v' by (simp add: is_array_def)
  ultimately show ?thesis using r c f' m' by blast
qed

subsection \<open>The zero-prefix and permutation invariants\<close>

lemma replicate_zero_count: "replicate (zero_count xs) 0 = filter (\<lambda>x. x = 0) xs"
  by (induction xs) (simp_all add: zero_count_def)

lemma mset_zeroes_first:
  "mset (replicate (zero_count xs) 0 @ filter (\<lambda>v. v \<noteq> 0) xs) = mset xs"
  by (simp add: replicate_zero_count)

lemma valid_input_heap_of:
  "array \<noteq> NULL \<Longrightarrow> vs \<noteq> [] \<Longrightarrow> valid_input (heap_of array vs) array (int (length vs))"
  by (cases vs) (auto simp: valid_input_def is_array_def heap_of_def write_array_def)

lemma array_contents_heap_of: "array_contents (heap_of array vs) array (int (length vs)) = vs"
  by (simp add: heap_of_def array_contents_write_array)

lemma runtime_contents:
  assumes "valid_input h p n"
  shows "\<exists>h'. ZeroesToBeginningRuntimeOptimized h p n = Inr (0, h')
           \<and> is_array h' p n
           \<and> (\<forall>a. a < p \<or> p + n \<le> a \<longrightarrow> h' a = h a)
           \<and> array_contents h' p n =
               replicate (zero_count (array_contents h p n)) 0
               @ filter (\<lambda>v. v \<noteq> 0) (array_contents h p n)"
proof -
  let ?xs = "array_contents h p n"
  let ?out = "replicate (zero_count ?xs) 0 @ filter (\<lambda>v. v \<noteq> 0) ?xs"
  from assms have n: "1 \<le> n" by (simp add: valid_input_def)
  have len: "int (length ?out) = n"
    using zero_count_compl [of ?xs] n by simp
  have "ZeroesToBeginningRuntimeOptimized h p n = Inr (0, write_array h p ?out)"
    using assms by (rule runtime_result)
  moreover have "is_array (write_array h p ?out) p n"
    using is_array_write_array [of h p ?out] len by simp
  moreover have "\<forall>a. a < p \<or> p + n \<le> a \<longrightarrow> write_array h p ?out a = h a"
    using write_array_frame [of _ p ?out h] len by simp
  moreover have "array_contents (write_array h p ?out) p n = ?out"
    using array_contents_write_array [of h p ?out] len by simp
  ultimately show ?thesis by blast
qed

text \<open>
  C1. For every valid input (non-null array reference, size at least 1, the array holding
  size cells), each mover returns the success indicator, and with \<open>z\<close> the number of
  zero-valued elements of the original array, every index below \<open>z\<close> of the resulting
  array holds zero and every index from \<open>z\<close> on holds a non-zero value.
\<close>

theorem zero_prefix_invariant:
  assumes "valid_input h array n"
  shows "(\<exists>h'. ZeroesToBeginningRuntimeOptimized h array n = Inr (0, h')
            \<and> zero_prefix (zero_count (array_contents h array n)) (array_contents h' array n))
       \<and> (\<exists>h'. ZeroesToBeginningSpaceOptimized h array n = Inr (0, h')
            \<and> zero_prefix (zero_count (array_contents h array n)) (array_contents h' array n))"
proof
  have "zero_prefix (zero_count (array_contents h array n))
          (replicate (zero_count (array_contents h array n)) 0
           @ filter (\<lambda>v. v \<noteq> 0) (array_contents h array n))"
    by (rule zero_prefix_replicate) simp
  with runtime_contents [OF assms]
  show "\<exists>h'. ZeroesToBeginningRuntimeOptimized h array n = Inr (0, h')
            \<and> zero_prefix (zero_count (array_contents h array n)) (array_contents h' array n)"
    by auto
next
  from space_result [OF assms]
  show "\<exists>h'. ZeroesToBeginningSpaceOptimized h array n = Inr (0, h')
            \<and> zero_prefix (zero_count (array_contents h array n)) (array_contents h' array n)"
    by blast
qed

theorem zero_prefix_invariant_witness:
  "valid_input (heap_of 16 [3, 0, 5, 0]) 16 4
   \<and> (\<exists>h'. ZeroesToBeginningRuntimeOptimized (heap_of 16 [3, 0, 5, 0]) 16 4 = Inr (0, h')
         \<and> zero_prefix (zero_count (array_contents (heap_of 16 [3, 0, 5, 0]) 16 4))
             (array_contents h' 16 4))
   \<and> (\<exists>h'. ZeroesToBeginningSpaceOptimized (heap_of 16 [3, 0, 5, 0]) 16 4 = Inr (0, h')
         \<and> zero_prefix (zero_count (array_contents (heap_of 16 [3, 0, 5, 0]) 16 4))
             (array_contents h' 16 4))"
proof -
  have v: "valid_input (heap_of 16 [3, 0, 5, 0]) 16 4"
    using valid_input_heap_of [of 16 "[3, 0, 5, 0]"] by (simp add: NULL_def)
  from v zero_prefix_invariant [OF v] show ?thesis by simp
qed

text \<open>
  C2. For every valid input, the multiset of the elements of the array after a successful
  call to either mover equals the multiset of its elements before the call.
\<close>

theorem permutation_invariant:
  assumes "valid_input h array n"
  shows "(\<exists>h'. ZeroesToBeginningRuntimeOptimized h array n = Inr (0, h')
            \<and> mset (array_contents h' array n) = mset (array_contents h array n))
       \<and> (\<exists>h'. ZeroesToBeginningSpaceOptimized h array n = Inr (0, h')
            \<and> mset (array_contents h' array n) = mset (array_contents h array n))"
proof
  let ?xs = "array_contents h array n"
  have "mset (replicate (zero_count ?xs) 0 @ filter (\<lambda>v. v \<noteq> 0) ?xs) = mset ?xs"
    by (rule mset_zeroes_first)
  with runtime_contents [OF assms]
  show "\<exists>h'. ZeroesToBeginningRuntimeOptimized h array n = Inr (0, h')
            \<and> mset (array_contents h' array n) = mset (array_contents h array n)"
    by auto
next
  from space_result [OF assms]
  show "\<exists>h'. ZeroesToBeginningSpaceOptimized h array n = Inr (0, h')
            \<and> mset (array_contents h' array n) = mset (array_contents h array n)"
    by blast
qed

theorem permutation_invariant_witness:
  "valid_input (heap_of 8 [0, 7, 0, 7, 2]) 8 5
   \<and> (\<exists>h'. ZeroesToBeginningRuntimeOptimized (heap_of 8 [0, 7, 0, 7, 2]) 8 5 = Inr (0, h')
         \<and> mset (array_contents h' 8 5) = mset (array_contents (heap_of 8 [0, 7, 0, 7, 2]) 8 5))
   \<and> (\<exists>h'. ZeroesToBeginningSpaceOptimized (heap_of 8 [0, 7, 0, 7, 2]) 8 5 = Inr (0, h')
         \<and> mset (array_contents h' 8 5) = mset (array_contents (heap_of 8 [0, 7, 0, 7, 2]) 8 5))"
proof -
  have v: "valid_input (heap_of 8 [0, 7, 0, 7, 2]) 8 5"
    using valid_input_heap_of [of 8 "[0, 7, 0, 7, 2]"] by (simp add: NULL_def)
  from v permutation_invariant [OF v] show ?thesis by simp
qed

subsection \<open>Invalid inputs\<close>

text \<open>
  C3. For a call to either mover with the null array reference and any count, or with a
  count of zero and any array reference, the mover returns the failure indicator \<open>- 1\<close> and
  leaves memory as it found it. The store \<open>h\<close> is arbitrary: the result is the same on a
  store that holds no cell at \<open>array\<close> (the pointer \<^verbatim>\<open>(int *) 1\<close> of the unit test), where
  any read or write through the reference would be a \<open>MemoryFault\<close>; so the reference is
  never read or written through.
\<close>

theorem invalid_input_rejection:
  assumes "array = NULL \<or> n = 0"
  shows "ZeroesToBeginningRuntimeOptimized h array n = Inr (- 1, h)
       \<and> ZeroesToBeginningSpaceOptimized h array n = Inr (- 1, h)"
  using assms
  by (auto simp: ZeroesToBeginningRuntimeOptimized_def ZeroesToBeginningSpaceOptimized_def)

theorem invalid_input_rejection_witness:
  "((1 :: addr) = NULL \<or> (0 :: int) = 0)
   \<and> ZeroesToBeginningRuntimeOptimized (heap_of 1 []) 1 0 = Inr (- 1, heap_of 1 [])
   \<and> ZeroesToBeginningSpaceOptimized (heap_of 1 []) 1 0 = Inr (- 1, heap_of 1 [])
   \<and> heap_of 1 [] 1 = None"
  using invalid_input_rejection [of 1 0 "heap_of 1 []"]
  by (simp add: heap_of_def write_array_def)

text \<open>
  C4, as the specification states it, fails on a negative count: with a non-null array and
  the count \<open>- 1\<close> the space-optimized mover returns the success indicator \<open>0\<close> (its loop
  body never runs), and the runtime-optimized mover returns no indicator at all, since
  \<^verbatim>\<open>new int[array_size]()\<close> throws. Both guards test \<^verbatim>\<open>array_size == 0\<close> only.
\<close>

theorem negative_count_counterexample:
  "(- 1 :: int) \<le> 0 \<and> (1 :: addr) \<noteq> NULL
   \<and> ZeroesToBeginningSpaceOptimized (heap_of 1 [5]) 1 (- 1) = Inr (0, heap_of 1 [5])
   \<and> ZeroesToBeginningRuntimeOptimized (heap_of 1 [5]) 1 (- 1) = Inl BadArrayNewLength"
  by (simp add: ZeroesToBeginningSpaceOptimized_def ZeroesToBeginningRuntimeOptimized_def
      NULL_def INT_MIN_def space_outer_exit)

text \<open>
  C4, amended. Each mover returns the failure indicator \<open>- 1\<close> exactly when the array
  reference is null or the element count is zero, and then memory is untouched (no partial
  processing); on every valid input (non-null reference to \<open>n \<ge> 1\<close> cells) it returns the
  success indicator \<open>0\<close>.
\<close>

theorem invalid_input_exactly:
  "((\<exists>h'. ZeroesToBeginningRuntimeOptimized h array n = Inr (- 1, h')) = (array = NULL \<or> n = 0))
   \<and> ((ZeroesToBeginningRuntimeOptimized h array n = Inr (- 1, h)) = (array = NULL \<or> n = 0))
   \<and> ((\<exists>h'. ZeroesToBeginningSpaceOptimized h array n = Inr (- 1, h')) = (array = NULL \<or> n = 0))
   \<and> ((ZeroesToBeginningSpaceOptimized h array n = Inr (- 1, h)) = (array = NULL \<or> n = 0))
   \<and> (valid_input h array n \<longrightarrow>
         (\<exists>h'. ZeroesToBeginningRuntimeOptimized h array n = Inr (0, h'))
       \<and> (\<exists>h'. ZeroesToBeginningSpaceOptimized h array n = Inr (0, h')))"
proof (intro conjI impI)
  show "(\<exists>h'. ZeroesToBeginningRuntimeOptimized h array n = Inr (- 1, h')) = (array = NULL \<or> n = 0)"
    by (auto simp: ZeroesToBeginningRuntimeOptimized_def split: sum.splits if_splits)
  show "(ZeroesToBeginningRuntimeOptimized h array n = Inr (- 1, h)) = (array = NULL \<or> n = 0)"
    by (auto simp: ZeroesToBeginningRuntimeOptimized_def split: sum.splits if_splits)
  show "(\<exists>h'. ZeroesToBeginningSpaceOptimized h array n = Inr (- 1, h')) = (array = NULL \<or> n = 0)"
    by (auto simp: ZeroesToBeginningSpaceOptimized_def split: sum.splits if_splits)
  show "(ZeroesToBeginningSpaceOptimized h array n = Inr (- 1, h)) = (array = NULL \<or> n = 0)"
    by (auto simp: ZeroesToBeginningSpaceOptimized_def split: sum.splits if_splits)
next
  assume v: "valid_input h array n"
  from runtime_contents [OF v]
  show "\<exists>h'. ZeroesToBeginningRuntimeOptimized h array n = Inr (0, h')" by blast
  from space_result [OF v]
  show "\<exists>h'. ZeroesToBeginningSpaceOptimized h array n = Inr (0, h')" by blast
qed

theorem invalid_input_exactly_witness:
  "valid_input (heap_of 4 [0, 9]) 4 2
   \<and> (\<exists>h'. ZeroesToBeginningRuntimeOptimized (heap_of 4 [0, 9]) 4 2 = Inr (0, h'))
   \<and> (\<exists>h'. ZeroesToBeginningSpaceOptimized (heap_of 4 [0, 9]) 4 2 = Inr (0, h'))
   \<and> \<not> (\<exists>h'. ZeroesToBeginningRuntimeOptimized (heap_of 4 [0, 9]) 4 2 = Inr (- 1, h'))
   \<and> \<not> (\<exists>h'. ZeroesToBeginningSpaceOptimized (heap_of 4 [0, 9]) 4 2 = Inr (- 1, h'))"
proof -
  have v: "valid_input (heap_of 4 [0, 9]) 4 2"
    using valid_input_heap_of [of 4 "[0, 9]"] by (simp add: NULL_def)
  from v invalid_input_exactly [of "heap_of 4 [0, 9]" 4 2] show ?thesis
    by (simp add: NULL_def)
qed

subsection \<open>The runtime-optimized mover and the scratch buffer of the specification\<close>

lemma runtime_loop_is_fill:
  assumes "\<forall>k. 0 \<le> k \<and> k \<le> i \<longrightarrow> h (p + k) \<noteq> None"
    and "i \<le> next" and "next < int (length out)" and "- 1 \<le> i"
  shows "runtime_loop h p out next i =
           Inr (spec_scratch_fill (rev (array_contents h p (i + 1))) out next)"
  using assms
proof (induction h p out "next" i rule: runtime_loop.induct)
  case (1 h p out nxt i)
  show ?case
  proof (cases "0 \<le> i")
    case False
    with 1(6) have "i = - 1" by simp
    then show ?thesis
      by (subst runtime_loop.simps) (simp add: array_contents_def)
  next
    case True
    with 1(3) obtain v where v: "h (p + i) = Some v" by fastforce
    have pre: "\<forall>k. 0 \<le> k \<and> k \<le> i - 1 \<longrightarrow> h (p + k) \<noteq> None"
      using 1(3) by simp
    have split: "rev (array_contents h p (i + 1)) = v # rev (array_contents h p (i - 1 + 1))"
      using True v by (simp add: array_contents_Suc)
    show ?thesis
    proof (cases "v = 0")
      case v0: True
      have "runtime_loop h p out nxt (i - 1) =
              Inr (spec_scratch_fill (rev (array_contents h p (i - 1 + 1))) out nxt)"
        using "1.IH"(2) [OF True v _ pre] v0 1(4,5) True by simp
      then show ?thesis
        using v0 v True split by (subst runtime_loop.simps) simp
    next
      case False
      have inb: "0 \<le> nxt \<and> nxt < int (length out)"
        using 1(4,5) True by simp
      have "runtime_loop h p (out[nat nxt := v]) (nxt - 1) (i - 1) =
              Inr (spec_scratch_fill (rev (array_contents h p (i - 1 + 1))) (out[nat nxt := v]) (nxt - 1))"
        using "1.IH"(1) [OF True v _ inb pre] False 1(4,5) True by simp
      then show ?thesis
        using False v True split inb by (subst runtime_loop.simps) simp
    qed
  qed
qed

lemma spec_scratch_buffer_contents:
  assumes "valid_input h p n"
  shows "spec_scratch_buffer (array_contents h p n) =
           replicate (zero_count (array_contents h p n)) 0
           @ filter (\<lambda>v. v \<noteq> 0) (array_contents h p n)"
proof -
  let ?xs = "array_contents h p n"
  from assms have n: "1 \<le> n" and arr: "is_array h p n"
    by (simp_all add: valid_input_def)
  have cells: "\<forall>k. 0 \<le> k \<and> k \<le> n - 1 \<longrightarrow> h (p + k) \<noteq> None"
    using arr by (simp add: is_array_def)
  have "runtime_loop h p (replicate (nat n) 0) (n - 1) (n - 1) =
          Inr (spec_scratch_fill (rev (array_contents h p (n - 1 + 1))) (replicate (nat n) 0) (n - 1))"
    using n by (intro runtime_loop_is_fill cells) simp_all
  then have a: "runtime_loop h p (replicate (nat n) 0) (n - 1) (n - 1) = Inr (spec_scratch_buffer ?xs)"
    using n by (simp add: spec_scratch_buffer_def)
  have "runtime_loop h p (replicate (nat n) 0) (n - 1) (n - 1) =
          Inr (take (nat (n - 1 + 1) - length (filter (\<lambda>v. v \<noteq> 0) (array_contents h p (n - 1 + 1))))
                 (replicate (nat n) 0)
               @ filter (\<lambda>v. v \<noteq> 0) (array_contents h p (n - 1 + 1))
               @ drop (nat (n - 1 + 1)) (replicate (nat n) 0))"
    using n by (intro runtime_loop_closed cells) simp_all
  moreover have "nat n - length (filter (\<lambda>v. v \<noteq> 0) ?xs) = zero_count ?xs"
    using zero_count_compl [of ?xs] by simp
  ultimately have "runtime_loop h p (replicate (nat n) 0) (n - 1) (n - 1) =
      Inr (replicate (zero_count ?xs) 0 @ filter (\<lambda>v. v \<noteq> 0) ?xs)"
    by simp
  with a show ?thesis by simp
qed

text \<open>
  C5. For every valid input, the runtime-optimized mover succeeds and the array it leaves
  is the scratch buffer of the specification's construction (zero-initialized, filled
  from the back with the non-zero elements met on the walk from the last index to the
  first), copied over the input; that buffer is \<open>z\<close> zeros followed by the non-zero elements
  in their original relative order.
\<close>

theorem runtime_optimized_scratch_buffer:
  assumes "valid_input h array n"
  shows "ZeroesToBeginningRuntimeOptimized h array n =
           Inr (0, write_array h array (spec_scratch_buffer (array_contents h array n)))
       \<and> array_contents (write_array h array (spec_scratch_buffer (array_contents h array n))) array n =
           spec_scratch_buffer (array_contents h array n)
       \<and> spec_scratch_buffer (array_contents h array n) =
           replicate (zero_count (array_contents h array n)) 0
           @ filter (\<lambda>v. v \<noteq> 0) (array_contents h array n)"
proof -
  let ?xs = "array_contents h array n"
  from assms have n: "1 \<le> n" by (simp add: valid_input_def)
  note eq = spec_scratch_buffer_contents [OF assms]
  have len: "int (length (spec_scratch_buffer ?xs)) = n"
    using zero_count_compl [of ?xs] n by (simp add: eq)
  have "ZeroesToBeginningRuntimeOptimized h array n = Inr (0, write_array h array (spec_scratch_buffer ?xs))"
    using runtime_result [OF assms] by (simp add: eq)
  moreover have "array_contents (write_array h array (spec_scratch_buffer ?xs)) array n = spec_scratch_buffer ?xs"
    using array_contents_write_array [of h array "spec_scratch_buffer ?xs"] len by simp
  ultimately show ?thesis using eq by simp
qed

theorem runtime_optimized_scratch_buffer_witness:
  "valid_input (heap_of 32 [4, 0, 6, 0, 0, 1]) 32 6
   \<and> ZeroesToBeginningRuntimeOptimized (heap_of 32 [4, 0, 6, 0, 0, 1]) 32 6 =
       Inr (0, write_array (heap_of 32 [4, 0, 6, 0, 0, 1]) 32 [0, 0, 0, 4, 6, 1])
   \<and> spec_scratch_buffer [4, 0, 6, 0, 0, 1] = [0, 0, 0, 4, 6, 1]"
proof -
  have v: "valid_input (heap_of 32 [4, 0, 6, 0, 0, 1]) 32 6"
    using valid_input_heap_of [of 32 "[4, 0, 6, 0, 0, 1]"] by (simp add: NULL_def)
  have c: "array_contents (heap_of 32 [4, 0, 6, 0, 0, 1]) 32 6 = [4, 0, 6, 0, 0, 1]"
    using array_contents_heap_of [of 32 "[4, 0, 6, 0, 0, 1]"] by simp
  have s: "spec_scratch_buffer [4, 0, 6, 0, 0, 1] = [0, 0, 0, 4, 6, 1]"
    by (simp add: spec_scratch_buffer_def)
  from v runtime_optimized_scratch_buffer [OF v] show ?thesis
    by (simp add: c s)
qed

subsection \<open>Arrays without a zero; the step count of the space-optimized mover\<close>

lemma write_array_contents:
  assumes "is_array h p n"
  shows "write_array h p (array_contents h p n) = h"
proof (rule ext)
  fix a
  show "write_array h p (array_contents h p n) a = h a"
  proof (cases "p \<le> a \<and> a < p + int (nat n)")
    case True
    then have k: "0 \<le> a - p" "a - p < n" by (auto split: if_splits)
    with assms have "h (p + (a - p)) \<noteq> None" by (rule is_array_cells)
    then obtain v where v: "h a = Some v" by auto
    have "array_contents h p n ! nat (a - p) = the (h (p + (a - p)))"
      using k by (rule array_contents_nth)
    with v True show ?thesis by (simp add: write_array_def)
  next
    case False
    then show ?thesis by (auto simp: write_array_def split: if_splits)
  qed
qed

lemma space_outer_nonzero:
  assumes "\<forall>k. nz < k \<and> k \<le> i \<longrightarrow> (\<exists>v. h (p + k) = Some v \<and> v \<noteq> 0)"
  shows "\<exists>c'. space_outer h p i nz c = Inr (h, c')"
  using assms
proof (induction "nat (i - nz)" arbitrary: i c)
  case 0
  then have "\<not> nz < i" by simp
  then show ?case by (simp add: space_outer_exit)
next
  case (Suc m)
  then have lt: "nz < i" and m: "m = nat (i - 1 - nz)" by simp_all
  with Suc.prems obtain v where v: "h (p + i) = Some v" "v \<noteq> 0" by fastforce
  have "\<forall>k. nz < k \<and> k \<le> i - 1 \<longrightarrow> (\<exists>v. h (p + k) = Some v \<and> v \<noteq> 0)"
    using Suc.prems by simp
  from Suc.hyps(1) [OF m this, of "c + 1"]
  obtain c' where "space_outer h p (i - 1) nz (c + 1) = Inr (h, c')" ..
  with space_outer_skip [of nz i h p v c] lt v show ?case by simp
qed

lemma nonzero_cells:
  assumes "is_array h p n" and "0 \<notin> set (array_contents h p n)" and "0 \<le> k" and "k < n"
  shows "\<exists>v. h (p + k) = Some v \<and> v \<noteq> 0"
proof -
  from assms(1,3,4) have "h (p + k) \<noteq> None" by (rule is_array_cells)
  then obtain v where v: "h (p + k) = Some v" by auto
  have "array_contents h p n ! nat k = the (h (p + k))"
    using assms(3,4) by (rule array_contents_nth)
  moreover have "array_contents h p n ! nat k \<in> set (array_contents h p n)"
    using assms(3,4) by (intro nth_mem) (simp add: nat_less_iff)
  ultimately have "v \<noteq> 0" using v assms(2) by auto
  with v show ?thesis by simp
qed

text \<open>
  C10. For every non-null array of at least one cell that holds no zero, each mover
  returns the success indicator and leaves memory exactly as it was: every element stays
  at its index.
\<close>

theorem no_zero_unchanged:
  assumes "valid_input h array n" and "0 \<notin> set (array_contents h array n)"
  shows "ZeroesToBeginningRuntimeOptimized h array n = Inr (0, h)
       \<and> ZeroesToBeginningSpaceOptimized h array n = Inr (0, h)"
proof
  let ?xs = "array_contents h array n"
  from assms(1) have p: "array \<noteq> NULL" and n: "1 \<le> n" and arr: "is_array h array n"
    by (simp_all add: valid_input_def)
  have f: "filter (\<lambda>v. v \<noteq> 0) ?xs = ?xs"
    using assms(2) by (intro filter_True) auto
  with zero_count_compl [of ?xs] have "zero_count ?xs = 0" by simp
  with f runtime_result [OF assms(1)] write_array_contents [OF arr]
  show "ZeroesToBeginningRuntimeOptimized h array n = Inr (0, h)" by simp
  have "\<forall>k. 0 < k \<and> k \<le> n - 1 \<longrightarrow> (\<exists>v. h (array + k) = Some v \<and> v \<noteq> 0)"
    using nonzero_cells [OF arr assms(2)] by simp
  from space_outer_nonzero [OF this, of 0]
  obtain c' where "space_outer h array (n - 1) 0 0 = Inr (h, c')" ..
  with p n show "ZeroesToBeginningSpaceOptimized h array n = Inr (0, h)"
    by (simp add: ZeroesToBeginningSpaceOptimized_def INT_MIN_def)
qed

theorem no_zero_unchanged_witness:
  "valid_input (heap_of 64 [9, 3, 7]) 64 3
   \<and> 0 \<notin> set (array_contents (heap_of 64 [9, 3, 7]) 64 3)
   \<and> ZeroesToBeginningRuntimeOptimized (heap_of 64 [9, 3, 7]) 64 3 = Inr (0, heap_of 64 [9, 3, 7])
   \<and> ZeroesToBeginningSpaceOptimized (heap_of 64 [9, 3, 7]) 64 3 = Inr (0, heap_of 64 [9, 3, 7])"
proof -
  have v: "valid_input (heap_of 64 [9, 3, 7]) 64 3"
    using valid_input_heap_of [of 64 "[9, 3, 7]"] by (simp add: NULL_def)
  have c: "array_contents (heap_of 64 [9, 3, 7]) 64 3 = [9, 3, 7]"
    using array_contents_heap_of [of 64 "[9, 3, 7]"] by simp
  have z: "0 \<notin> set (array_contents (heap_of 64 [9, 3, 7]) 64 3)"
    by (simp add: c)
  from v z no_zero_unchanged [OF v z] show ?thesis by simp
qed

text \<open>
  C8. For every valid input the space-optimized mover terminates with the success
  indicator, and the cursor advances it makes (\<^verbatim>\<open>--i\<close> of the outer loop and \<^verbatim>\<open>++next_zero\<close>
  of the inner loop together) number at most \<open>size\<close>. It works in place: its only state
  beside the array is the two cursors, and no cell outside the array is changed.
\<close>

theorem space_optimized_linear:
  assumes "valid_input h array n"
  shows "\<exists>h' steps. space_outer h array (n - 1) 0 0 = Inr (h', steps)
           \<and> steps \<le> nat n
           \<and> ZeroesToBeginningSpaceOptimized h array n = Inr (0, h')
           \<and> (\<forall>a. a < array \<or> array + n \<le> a \<longrightarrow> h' a = h a)"
  using space_result [OF assms] by blast

theorem space_optimized_linear_witness:
  "valid_input (heap_of 2 [0, 0, 0]) 2 3
   \<and> (\<exists>h' steps. space_outer (heap_of 2 [0, 0, 0]) 2 (3 - 1) 0 0 = Inr (h', steps)
         \<and> steps \<le> nat 3
         \<and> ZeroesToBeginningSpaceOptimized (heap_of 2 [0, 0, 0]) 2 3 = Inr (0, h')
         \<and> (\<forall>a. a < 2 \<or> 2 + 3 \<le> a \<longrightarrow> h' a = heap_of 2 [0, 0, 0] a))"
proof -
  have v: "valid_input (heap_of 2 [0, 0, 0]) 2 3"
    using valid_input_heap_of [of 2 "[0, 0, 0]"] by (simp add: NULL_def)
  from v space_optimized_linear [OF v] show ?thesis by simp
qed

subsection \<open>The loops read nothing but the array\<close>

lemma copy_cells_fault:
  "\<exists>k<length vs. h (dst + int k) = None \<Longrightarrow> copy_cells h dst vs = Inl MemoryFault"
proof (induction vs arbitrary: h dst)
  case Nil
  then show ?case by simp
next
  case (Cons v vs)
  show ?case
  proof (cases "h dst")
    case None
    then show ?thesis by simp
  next
    case (Some u)
    from Cons.prems obtain k where k: "k < length (v # vs)" "h (dst + int k) = None" by blast
    with Some obtain k' where k': "k = Suc k'" by (cases k) auto
    with k have "k' < length vs" and "(h(dst \<mapsto> v)) (dst + 1 + int k') = None"
      by (simp_all add: add.assoc)
    then have "copy_cells (h(dst \<mapsto> v)) (dst + 1) vs = Inl MemoryFault"
      by (intro Cons.IH) blast
    with Some show ?thesis by simp
  qed
qed

lemma runtime_loop_exit: "\<not> 0 \<le> i \<Longrightarrow> runtime_loop h p out nxt i = Inr out"
  by (subst runtime_loop.simps) simp

lemma runtime_loop_fault:
  "0 \<le> i \<Longrightarrow> h (p + i) = None \<Longrightarrow> runtime_loop h p out nxt i = Inl MemoryFault"
  by (subst runtime_loop.simps) simp

lemma runtime_loop_zero:
  "0 \<le> i \<Longrightarrow> h (p + i) = Some 0 \<Longrightarrow>
   runtime_loop h p out nxt i = runtime_loop h p out nxt (i - 1)"
  by (subst runtime_loop.simps) simp

lemma runtime_loop_move:
  "0 \<le> i \<Longrightarrow> h (p + i) = Some v \<Longrightarrow> v \<noteq> 0 \<Longrightarrow> 0 \<le> nxt \<and> nxt < int (length out) \<Longrightarrow>
   runtime_loop h p out nxt i = runtime_loop h p (out[nat nxt := v]) (nxt - 1) (i - 1)"
  by (subst runtime_loop.simps) simp

lemma runtime_loop_outside:
  "0 \<le> i \<Longrightarrow> h (p + i) = Some v \<Longrightarrow> v \<noteq> 0 \<Longrightarrow> \<not> (0 \<le> nxt \<and> nxt < int (length out)) \<Longrightarrow>
   runtime_loop h p out nxt i = Inl MemoryFault"
  by (subst runtime_loop.simps) auto

lemma runtime_loop_rel:
  assumes "\<forall>k. 0 \<le> k \<and> k \<le> i \<longrightarrow> h1 (p1 + k) = h2 (p2 + k)"
  shows "runtime_loop h1 p1 out next i = runtime_loop h2 p2 out next i"
  using assms
proof (induction h1 p1 out "next" i rule: runtime_loop.induct)
  case (1 h1 p1 out nxt i)
  show ?case
  proof (cases "0 \<le> i")
    case False
    then show ?thesis by (simp add: runtime_loop_exit)
  next
    case True
    with 1(3) have eq: "h1 (p1 + i) = h2 (p2 + i)" by simp
    have pre: "\<forall>k. 0 \<le> k \<and> k \<le> i - 1 \<longrightarrow> h1 (p1 + k) = h2 (p2 + k)"
      using 1(3) by simp
    show ?thesis
    proof (cases "h1 (p1 + i)")
      case None
      with eq True show ?thesis by (simp add: runtime_loop_fault)
    next
      case (Some v)
      with eq have Some2: "h2 (p2 + i) = Some v" by simp
      show ?thesis
      proof (cases "v = 0")
        case v0: True
        from "1.IH"(2) [OF True Some _ pre] v0
        have "runtime_loop h1 p1 out nxt (i - 1) = runtime_loop h2 p2 out nxt (i - 1)" by simp
        with Some Some2 True v0 show ?thesis by (simp add: runtime_loop_zero)
      next
        case False
        show ?thesis
        proof (cases "0 \<le> nxt \<and> nxt < int (length out)")
          case inb: True
          from "1.IH"(1) [OF True Some False inb pre]
          have "runtime_loop h1 p1 (out[nat nxt := v]) (nxt - 1) (i - 1) =
                runtime_loop h2 p2 (out[nat nxt := v]) (nxt - 1) (i - 1)" .
          then show ?thesis
            using runtime_loop_move [where h = h1 and p = p1, OF True Some False inb]
              runtime_loop_move [where h = h2 and p = p2, OF True Some2 False inb]
            by simp
        next
          case oob: False
          show ?thesis
            using runtime_loop_outside [where h = h1 and p = p1, OF True Some False oob]
              runtime_loop_outside [where h = h2 and p = p2, OF True Some2 False oob]
            by simp
        qed
      qed
    qed
  qed
qed

lemma runtime_loop_length:
  "runtime_loop h p out next i = Inr out' \<Longrightarrow> length out' = length out"
proof (induction h p out "next" i rule: runtime_loop.induct)
  case (1 h p out nxt i)
  show ?case
  proof (cases "0 \<le> i")
    case False
    with "1.prems" show ?thesis by (simp add: runtime_loop_exit)
  next
    case True
    show ?thesis
    proof (cases "h (p + i)")
      case None
      with True "1.prems" show ?thesis by (simp add: runtime_loop_fault)
    next
      case (Some v)
      show ?thesis
      proof (cases "v = 0")
        case v0: True
        with True Some "1.prems" have "runtime_loop h p out nxt (i - 1) = Inr out'"
          by (simp add: runtime_loop_zero)
        with "1.IH"(2) [OF True Some] v0 show ?thesis by simp
      next
        case False
        show ?thesis
        proof (cases "0 \<le> nxt \<and> nxt < int (length out)")
          case inb: True
          from runtime_loop_move [where h = h and p = p, OF True Some False inb] "1.prems"
          have "runtime_loop h p (out[nat nxt := v]) (nxt - 1) (i - 1) = Inr out'" by simp
          with "1.IH"(1) [OF True Some False inb] show ?thesis by simp
        next
          case oob: False
          from runtime_loop_outside [where h = h and p = p, OF True Some False oob] "1.prems" show ?thesis by simp
        qed
      qed
    qed
  qed
qed

lemma space_inner_fault:
  "h (p + nz) = None \<Longrightarrow> space_inner h p i nz c = Inl MemoryFault"
  by (subst space_inner.simps) simp

lemma space_inner_step:
  "h (p + nz) = Some 0 \<Longrightarrow> nz < i \<Longrightarrow> space_inner h p i nz c = space_inner h p i (nz + 1) (c + 1)"
  by (subst space_inner.simps) simp

lemma space_inner_stop:
  "h (p + nz) = Some v \<Longrightarrow> \<not> (v = 0 \<and> nz < i) \<Longrightarrow> space_inner h p i nz c = Inr (nz, c)"
  by (subst space_inner.simps) auto

lemma space_inner_upper:
  "space_inner h p i nz c = Inr (nz', c') \<Longrightarrow> nz \<le> i \<Longrightarrow> nz' \<le> i"
proof (induction h p i nz c rule: space_inner.induct)
  case (1 h p i nz c)
  show ?case
  proof (cases "h (p + nz)")
    case None
    with "1.prems" show ?thesis by (simp add: space_inner_fault)
  next
    case (Some v)
    show ?thesis
    proof (cases "v = 0 \<and> nz < i")
      case True
      with Some "1.prems" have "space_inner h p i (nz + 1) (c + 1) = Inr (nz', c')"
        by (simp add: space_inner_step)
      with "1.IH" [OF Some True] True show ?thesis by simp
    next
      case False
      with Some "1.prems" show ?thesis by (simp add: space_inner_stop)
    qed
  qed
qed

lemma space_inner_rel:
  assumes "\<forall>k. 0 \<le> k \<and> k < n \<longrightarrow> h1 (p1 + k) = h2 (p2 + k)"
    and "0 \<le> nz" and "nz \<le> i" and "i < n"
  shows "space_inner h1 p1 i nz c = space_inner h2 p2 i nz c"
  using assms
proof (induction h1 p1 i nz c rule: space_inner.induct)
  case (1 h1 p1 i nz c)
  from 1(2-5) have eq: "h1 (p1 + nz) = h2 (p2 + nz)" by simp
  show ?case
  proof (cases "h1 (p1 + nz)")
    case None
    with eq show ?thesis by (simp add: space_inner_fault)
  next
    case (Some v)
    with eq have Some2: "h2 (p2 + nz) = Some v" by simp
    show ?thesis
    proof (cases "v = 0 \<and> nz < i")
      case True
      from "1.IH" [OF Some True 1(2)] True 1(3-5)
      have "space_inner h1 p1 i (nz + 1) (c + 1) = space_inner h2 p2 i (nz + 1) (c + 1)" by simp
      with Some Some2 True show ?thesis by (simp add: space_inner_step)
    next
      case False
      with Some Some2 show ?thesis by (simp add: space_inner_stop)
    qed
  qed
qed

lemma space_outer_fault:
  "nz < i \<Longrightarrow> h (p + i) = None \<Longrightarrow> space_outer h p i nz c = Inl MemoryFault"
  by (subst space_outer.simps) simp

lemma space_outer_inner_fault:
  "nz < i \<Longrightarrow> h (p + i) = Some 0 \<Longrightarrow> space_inner h p i nz c = Inl e \<Longrightarrow>
   space_outer h p i nz c = Inl e"
  by (subst space_outer.simps) simp

lemma space_outer_read_fault:
  "nz < i \<Longrightarrow> h (p + i) = Some 0 \<Longrightarrow> space_inner h p i nz c = Inr (nz', c') \<Longrightarrow>
   h (p + nz') = None \<Longrightarrow> space_outer h p i nz c = Inl MemoryFault"
  by (subst space_outer.simps) simp

lemma cells_eq_iff:
  "(cells h1 p1 n = cells h2 p2 n) = (\<forall>k. 0 \<le> k \<and> k < n \<longrightarrow> h1 (p1 + k) = h2 (p2 + k))"
proof
  assume eq: "cells h1 p1 n = cells h2 p2 n"
  show "\<forall>k. 0 \<le> k \<and> k < n \<longrightarrow> h1 (p1 + k) = h2 (p2 + k)"
  proof (intro allI impI)
    fix k :: int assume k: "0 \<le> k \<and> k < n"
    then have "nat k \<in> set [0..<nat n]" by (simp add: nat_less_iff)
    with eq have "h1 (p1 + int (nat k)) = h2 (p2 + int (nat k))"
      unfolding cells_def map_eq_conv by blast
    with k show "h1 (p1 + k) = h2 (p2 + k)" by simp
  qed
next
  assume "\<forall>k. 0 \<le> k \<and> k < n \<longrightarrow> h1 (p1 + k) = h2 (p2 + k)"
  then show "cells h1 p1 n = cells h2 p2 n"
    unfolding cells_def map_eq_conv by simp
qed

lemma cells_write_array: "cells (write_array h p vs) p (int (length vs)) = map Some vs"
  by (rule nth_equalityI) (simp_all add: cells_def write_array_def)

lemma space_outer_rel:
  assumes "\<forall>k. 0 \<le> k \<and> k < n \<longrightarrow> h1 (p1 + k) = h2 (p2 + k)" and "0 \<le> nz" and "i < n"
  shows "(\<exists>e. space_outer h1 p1 i nz c = Inl e \<and> space_outer h2 p2 i nz c = Inl e)
       \<or> (\<exists>h1' h2' c'. space_outer h1 p1 i nz c = Inr (h1', c')
             \<and> space_outer h2 p2 i nz c = Inr (h2', c')
             \<and> (\<forall>k. 0 \<le> k \<and> k < n \<longrightarrow> h1' (p1 + k) = h2' (p2 + k)))"
  using assms
proof (induction "nat (i + 1)" arbitrary: h1 h2 i nz c)
  case 0
  then have "\<not> nz < i" by simp
  with "0.prems"(1) show ?case by (simp add: space_outer_exit)
next
  case (Suc m)
  note agree = Suc.prems(1) and nz0 = Suc.prems(2) and i = Suc.prems(3)
  have m: "m = nat (i - 1 + 1)" using Suc.hyps(2) by simp
  show ?case
  proof (cases "nz < i")
    case False
    with agree show ?thesis by (simp add: space_outer_exit)
  next
    case True
    with agree nz0 i have eq: "h1 (p1 + i) = h2 (p2 + i)" by simp
    show ?thesis
    proof (cases "h1 (p1 + i)")
      case None
      with eq True show ?thesis by (simp add: space_outer_fault)
    next
      case (Some v)
      with eq have Some2: "h2 (p2 + i) = Some v" by simp
      show ?thesis
      proof (cases "v = 0")
        case False
        have "(\<exists>e. space_outer h1 p1 (i - 1) nz (c + 1) = Inl e \<and> space_outer h2 p2 (i - 1) nz (c + 1) = Inl e)
            \<or> (\<exists>h1' h2' c'. space_outer h1 p1 (i - 1) nz (c + 1) = Inr (h1', c')
                  \<and> space_outer h2 p2 (i - 1) nz (c + 1) = Inr (h2', c')
                  \<and> (\<forall>k. 0 \<le> k \<and> k < n \<longrightarrow> h1' (p1 + k) = h2' (p2 + k)))"
          by (rule Suc.hyps(1)) (use m agree nz0 i in simp_all)
        then show ?thesis
          using space_outer_skip [of nz i h1 p1 v c] space_outer_skip [of nz i h2 p2 v c]
            True Some Some2 False by simp
      next
        case v0: True
        have inner: "space_inner h1 p1 i nz c = space_inner h2 p2 i nz c"
          using agree nz0 True i by (intro space_inner_rel [where n = n]) simp_all
        show ?thesis
        proof (cases "space_inner h1 p1 i nz c")
          case (Inl e)
          with inner have "space_inner h2 p2 i nz c = Inl e" by simp
          with Inl True Some Some2 v0
          have "space_outer h1 p1 i nz c = Inl e" and "space_outer h2 p2 i nz c = Inl e"
            by (simp_all add: space_outer_inner_fault)
          then show ?thesis by simp
        next
          case (Inr r)
          obtain nz' c' where r: "r = (nz', c')" by (cases r)
          with Inr inner have in1: "space_inner h1 p1 i nz c = Inr (nz', c')"
            and in2: "space_inner h2 p2 i nz c = Inr (nz', c')" by simp_all
          have nb: "nz \<le> nz'" "nz' \<le> i"
            using space_inner_cursor [OF in1] space_inner_upper [OF in1] True by simp_all
          with agree nz0 i have eq': "h1 (p1 + nz') = h2 (p2 + nz')" by simp
          show ?thesis
          proof (cases "h1 (p1 + nz')")
            case None
            with eq' have "h2 (p2 + nz') = None" by simp
            with None in1 in2 True Some Some2 v0
            have "space_outer h1 p1 i nz c = Inl MemoryFault"
              and "space_outer h2 p2 i nz c = Inl MemoryFault"
              by (simp_all add: space_outer_read_fault [where nz' = nz' and c' = c'])
            then show ?thesis by simp
          next
            case w: (Some w)
            with eq' have w2: "h2 (p2 + nz') = Some w" by simp
            let ?g1 = "h1(p1 + i \<mapsto> w, p1 + nz' \<mapsto> 0)"
            let ?g2 = "h2(p2 + i \<mapsto> w, p2 + nz' \<mapsto> 0)"
            have agree': "\<forall>k. 0 \<le> k \<and> k < n \<longrightarrow> ?g1 (p1 + k) = ?g2 (p2 + k)"
              using agree by simp
            have nz0': "0 \<le> nz'" using nz0 nb by simp
            have "(\<exists>e. space_outer ?g1 p1 (i - 1) nz' (c' + 1) = Inl e
                        \<and> space_outer ?g2 p2 (i - 1) nz' (c' + 1) = Inl e)
                \<or> (\<exists>h1' h2' c''. space_outer ?g1 p1 (i - 1) nz' (c' + 1) = Inr (h1', c'')
                      \<and> space_outer ?g2 p2 (i - 1) nz' (c' + 1) = Inr (h2', c'')
                      \<and> (\<forall>k. 0 \<le> k \<and> k < n \<longrightarrow> h1' (p1 + k) = h2' (p2 + k)))"
              by (rule Suc.hyps(1)) (use m agree' nz0' i in simp_all)
            then show ?thesis
              using space_outer_swap [of nz i h1 p1 c nz' c' w]
                space_outer_swap [of nz i h2 p2 c nz' c' w]
                True Some Some2 v0 in1 in2 w w2 by simp
          qed
        qed
      qed
    qed
  qed
qed

subsection \<open>Determinism\<close>

lemma runtime_outcome_rel:
  assumes null: "(p1 = NULL) = (p2 = NULL)" and eq: "cells h1 p1 n = cells h2 p2 n"
  shows "outcome (ZeroesToBeginningRuntimeOptimized h1 p1 n) p1 n =
         outcome (ZeroesToBeginningRuntimeOptimized h2 p2 n) p2 n"
proof (cases "p1 = NULL \<or> n \<le> 0")
  case True
  with null eq show ?thesis
    by (auto simp: ZeroesToBeginningRuntimeOptimized_def outcome_def)
next
  case False
  with null have p: "p1 \<noteq> NULL" "p2 \<noteq> NULL" and n: "0 < n" by auto
  from eq have agree: "\<forall>k. 0 \<le> k \<and> k < n \<longrightarrow> h1 (p1 + k) = h2 (p2 + k)"
    by (simp add: cells_eq_iff)
  let ?out = "replicate (nat n) (0 :: cint)"
  have loop: "runtime_loop h1 p1 ?out (n - 1) (n - 1) = runtime_loop h2 p2 ?out (n - 1) (n - 1)"
    using agree by (intro runtime_loop_rel) simp
  show ?thesis
  proof (cases "runtime_loop h1 p1 ?out (n - 1) (n - 1)")
    case (Inl e)
    with loop have "runtime_loop h2 p2 ?out (n - 1) (n - 1) = Inl e" by simp
    with Inl p n show ?thesis
      by (simp add: ZeroesToBeginningRuntimeOptimized_def outcome_def)
  next
    case (Inr out')
    with loop have Inr2: "runtime_loop h2 p2 ?out (n - 1) (n - 1) = Inr out'" by simp
    from Inr have len: "length out' = nat n"
      using runtime_loop_length [of h1 p1 ?out "n - 1" "n - 1" out'] by simp
    then have take: "take (nat n) out' = out'" by simp
    show ?thesis
    proof (cases "\<forall>k<length out'. h1 (p1 + int k) \<noteq> None")
      case True
      with agree len have "\<forall>k<length out'. h2 (p2 + int k) \<noteq> None" by simp
      with True have "memcpy h1 p1 out' n = Inr (write_array h1 p1 out')"
        and "memcpy h2 p2 out' n = Inr (write_array h2 p2 out')"
        by (simp_all add: memcpy_def take copy_cells_ok)
      moreover have "cells (write_array h1 p1 out') p1 n = map Some out'"
        and "cells (write_array h2 p2 out') p2 n = map Some out'"
        using cells_write_array [of h1 p1 out'] cells_write_array [of h2 p2 out'] len n by simp_all
      ultimately show ?thesis
        using Inr Inr2 p n by (simp add: ZeroesToBeginningRuntimeOptimized_def outcome_def)
    next
      case False
      then have f1: "\<exists>k<length out'. h1 (p1 + int k) = None" by simp
      with agree len have f2: "\<exists>k<length out'. h2 (p2 + int k) = None" by auto
      from f1 f2 have "memcpy h1 p1 out' n = Inl MemoryFault"
        and "memcpy h2 p2 out' n = Inl MemoryFault"
        by (simp_all add: memcpy_def take copy_cells_fault)
      then show ?thesis
        using Inr Inr2 p n by (simp add: ZeroesToBeginningRuntimeOptimized_def outcome_def)
    qed
  qed
qed

lemma space_outcome_rel:
  assumes null: "(p1 = NULL) = (p2 = NULL)" and eq: "cells h1 p1 n = cells h2 p2 n"
  shows "outcome (ZeroesToBeginningSpaceOptimized h1 p1 n) p1 n =
         outcome (ZeroesToBeginningSpaceOptimized h2 p2 n) p2 n"
proof (cases "p1 = NULL \<or> n = 0 \<or> n - 1 < INT_MIN")
  case True
  with null eq show ?thesis
    by (auto simp: ZeroesToBeginningSpaceOptimized_def outcome_def)
next
  case False
  with null have p: "p1 \<noteq> NULL" "p2 \<noteq> NULL" and n: "n \<noteq> 0" "\<not> n - 1 < INT_MIN" by auto
  from eq have agree: "\<forall>k. 0 \<le> k \<and> k < n \<longrightarrow> h1 (p1 + k) = h2 (p2 + k)"
    by (simp add: cells_eq_iff)
  have "(\<exists>e. space_outer h1 p1 (n - 1) 0 0 = Inl e \<and> space_outer h2 p2 (n - 1) 0 0 = Inl e)
       \<or> (\<exists>h1' h2' c'. space_outer h1 p1 (n - 1) 0 0 = Inr (h1', c')
             \<and> space_outer h2 p2 (n - 1) 0 0 = Inr (h2', c')
             \<and> (\<forall>k. 0 \<le> k \<and> k < n \<longrightarrow> h1' (p1 + k) = h2' (p2 + k)))"
    using agree by (intro space_outer_rel) simp_all
  then show ?thesis
  proof (elim disjE exE conjE)
    fix e assume "space_outer h1 p1 (n - 1) 0 0 = Inl e" "space_outer h2 p2 (n - 1) 0 0 = Inl e"
    with p n show ?thesis
      by (simp add: ZeroesToBeginningSpaceOptimized_def outcome_def)
  next
    fix h1' h2' c'
    assume r: "space_outer h1 p1 (n - 1) 0 0 = Inr (h1', c')"
      "space_outer h2 p2 (n - 1) 0 0 = Inr (h2', c')"
      and "\<forall>k. 0 \<le> k \<and> k < n \<longrightarrow> h1' (p1 + k) = h2' (p2 + k)"
    then have "cells h1' p1 n = cells h2' p2 n" by (simp add: cells_eq_iff)
    with r p n show ?thesis
      by (simp add: ZeroesToBeginningSpaceOptimized_def outcome_def)
  qed
qed

text \<open>
  C9. Each mover is deterministic in its input, which is the array's cells and the count
  (and whether the reference is null): two calls on equal inputs return the same status
  and leave identical arrays, cell for cell, or fail alike. The two calls may differ in
  the address of the array and in all other memory; neither influences the outcome.
\<close>

theorem movers_deterministic:
  assumes "(array1 = NULL) = (array2 = NULL)" and "cells h1 array1 n = cells h2 array2 n"
  shows "outcome (ZeroesToBeginningRuntimeOptimized h1 array1 n) array1 n =
         outcome (ZeroesToBeginningRuntimeOptimized h2 array2 n) array2 n
       \<and> outcome (ZeroesToBeginningSpaceOptimized h1 array1 n) array1 n =
         outcome (ZeroesToBeginningSpaceOptimized h2 array2 n) array2 n"
  using assms by (intro conjI runtime_outcome_rel space_outcome_rel)

theorem movers_deterministic_witness:
  "((8 :: addr) = NULL) = ((40 :: addr) = NULL)
   \<and> cells (heap_of 8 [0, 5, 0, 2]) 8 4 = cells (write_array (heap_of 7 [9]) 40 [0, 5, 0, 2]) 40 4
   \<and> outcome (ZeroesToBeginningRuntimeOptimized (heap_of 8 [0, 5, 0, 2]) 8 4) 8 4 =
     outcome (ZeroesToBeginningRuntimeOptimized (write_array (heap_of 7 [9]) 40 [0, 5, 0, 2]) 40 4) 40 4
   \<and> outcome (ZeroesToBeginningSpaceOptimized (heap_of 8 [0, 5, 0, 2]) 8 4) 8 4 =
     outcome (ZeroesToBeginningSpaceOptimized (write_array (heap_of 7 [9]) 40 [0, 5, 0, 2]) 40 4) 40 4"
proof -
  have a: "((8 :: addr) = NULL) = ((40 :: addr) = NULL)"
    by (simp add: NULL_def)
  have c: "cells (heap_of 8 [0, 5, 0, 2]) 8 4 = cells (write_array (heap_of 7 [9]) 40 [0, 5, 0, 2]) 40 4"
    using cells_write_array [of "\<lambda>a. None" 8 "[0, 5, 0, 2]"]
      cells_write_array [of "heap_of 7 [9]" 40 "[0, 5, 0, 2]"]
    by (simp add: heap_of_def)
  from a c movers_deterministic [OF a c] show ?thesis by simp
qed

subsection \<open>The unit-test scenario; applying a mover twice\<close>

lemma outcome_Inr:
  "outcome r p n = Inr (s, cs) \<Longrightarrow> \<exists>h'. r = Inr (s, h') \<and> cells h' p n = cs"
  by (cases r) (auto simp: outcome_def)

lemma array_contents_cells: "cells h p n = map Some ys \<Longrightarrow> array_contents h p n = ys"
proof -
  assume "cells h p n = map Some ys"
  then have "map the (cells h p n) = ys" by (simp add: comp_def)
  then show ?thesis by (simp add: cells_def array_contents_def comp_def)
qed

lemma cells_heap_of: "cells (heap_of p vs) p (int (length vs)) = map Some vs"
  by (simp add: heap_of_def cells_write_array)

lemma scenario_1_space:
  "outcome (ZeroesToBeginningSpaceOptimized (heap_of 1 [1, 2, 3, 4, 5, 6, 7, 8, 0, 0]) 1 10) 1 10 =
     Inr (0, map Some [0, 0, 3, 4, 5, 6, 7, 8, 2, 1])"
  by code_simp

lemma scenario_1_runtime:
  "outcome (ZeroesToBeginningRuntimeOptimized (heap_of 1 [1, 2, 3, 4, 5, 6, 7, 8, 0, 0]) 1 10) 1 10 =
     Inr (0, map Some [0, 0, 1, 2, 3, 4, 5, 6, 7, 8])"
  by code_simp

text \<open>
  C6. On the array \<open>[1, 2, 3, 4, 5, 6, 7, 8, 0, 0]\<close> with size 10, each mover returns the
  success indicator and leaves one of the two arrays the unit test accepts,
  \<open>[0, 0, 1, 2, 3, 4, 5, 6, 7, 8]\<close> or \<open>[0, 0, 3, 4, 5, 6, 7, 8, 2, 1]\<close>.
\<close>

theorem scenario_1:
  assumes "array \<noteq> NULL"
    and "cells h array 10 = map Some [1, 2, 3, 4, 5, 6, 7, 8, 0, 0]"
  shows "(\<exists>h'. ZeroesToBeginningRuntimeOptimized h array 10 = Inr (0, h')
            \<and> array_contents h' array 10 \<in>
                {[0, 0, 1, 2, 3, 4, 5, 6, 7, 8], [0, 0, 3, 4, 5, 6, 7, 8, 2, 1]})
       \<and> (\<exists>h'. ZeroesToBeginningSpaceOptimized h array 10 = Inr (0, h')
            \<and> array_contents h' array 10 \<in>
                {[0, 0, 1, 2, 3, 4, 5, 6, 7, 8], [0, 0, 3, 4, 5, 6, 7, 8, 2, 1]})"
proof
  let ?h0 = "heap_of 1 [1, 2, 3, 4, 5, 6, 7, 8, 0, 0]"
  have null: "(array = NULL) = ((1 :: addr) = NULL)"
    using assms(1) by (simp add: NULL_def)
  have "cells ?h0 1 10 = map Some [1, 2, 3, 4, 5, 6, 7, 8, 0, 0]"
    using cells_heap_of [of 1 "[1, 2, 3, 4, 5, 6, 7, 8, 0, 0]"] by simp
  with assms(2) have eq: "cells h array 10 = cells ?h0 1 10" by simp
  have "outcome (ZeroesToBeginningRuntimeOptimized h array 10) array 10 =
          Inr (0, map Some [0, 0, 1, 2, 3, 4, 5, 6, 7, 8])"
    using runtime_outcome_rel [OF null eq] scenario_1_runtime by simp
  then obtain h' where "ZeroesToBeginningRuntimeOptimized h array 10 = Inr (0, h')"
    and "cells h' array 10 = map Some [0, 0, 1, 2, 3, 4, 5, 6, 7, 8]"
    using outcome_Inr by blast
  then show "\<exists>h'. ZeroesToBeginningRuntimeOptimized h array 10 = Inr (0, h')
            \<and> array_contents h' array 10 \<in>
                {[0, 0, 1, 2, 3, 4, 5, 6, 7, 8], [0, 0, 3, 4, 5, 6, 7, 8, 2, 1]}"
    using array_contents_cells by blast
  have "outcome (ZeroesToBeginningSpaceOptimized h array 10) array 10 =
          Inr (0, map Some [0, 0, 3, 4, 5, 6, 7, 8, 2, 1])"
    using space_outcome_rel [OF null eq] scenario_1_space by simp
  then obtain h'' where "ZeroesToBeginningSpaceOptimized h array 10 = Inr (0, h'')"
    and "cells h'' array 10 = map Some [0, 0, 3, 4, 5, 6, 7, 8, 2, 1]"
    using outcome_Inr by blast
  then show "\<exists>h'. ZeroesToBeginningSpaceOptimized h array 10 = Inr (0, h')
            \<and> array_contents h' array 10 \<in>
                {[0, 0, 1, 2, 3, 4, 5, 6, 7, 8], [0, 0, 3, 4, 5, 6, 7, 8, 2, 1]}"
    using array_contents_cells by blast
qed

theorem scenario_1_witness:
  "(4096 :: addr) \<noteq> NULL
   \<and> cells (heap_of 4096 [1, 2, 3, 4, 5, 6, 7, 8, 0, 0]) 4096 10 = map Some [1, 2, 3, 4, 5, 6, 7, 8, 0, 0]
   \<and> (\<exists>h'. ZeroesToBeginningRuntimeOptimized (heap_of 4096 [1, 2, 3, 4, 5, 6, 7, 8, 0, 0]) 4096 10 = Inr (0, h')
         \<and> array_contents h' 4096 10 \<in>
             {[0, 0, 1, 2, 3, 4, 5, 6, 7, 8], [0, 0, 3, 4, 5, 6, 7, 8, 2, 1]})
   \<and> (\<exists>h'. ZeroesToBeginningSpaceOptimized (heap_of 4096 [1, 2, 3, 4, 5, 6, 7, 8, 0, 0]) 4096 10 = Inr (0, h')
         \<and> array_contents h' 4096 10 \<in>
             {[0, 0, 1, 2, 3, 4, 5, 6, 7, 8], [0, 0, 3, 4, 5, 6, 7, 8, 2, 1]})"
proof -
  have a: "(4096 :: addr) \<noteq> NULL" by (simp add: NULL_def)
  have c: "cells (heap_of 4096 [1, 2, 3, 4, 5, 6, 7, 8, 0, 0]) 4096 10 =
             map Some [1, 2, 3, 4, 5, 6, 7, 8, 0, 0]"
    using cells_heap_of [of 4096 "[1, 2, 3, 4, 5, 6, 7, 8, 0, 0]"] by simp
  from a c scenario_1 [OF a c] show ?thesis by blast
qed

lemma mover_twice:
  assumes post: "\<And>h. valid_input h p n \<Longrightarrow>
      \<exists>h'. M h p n = Inr (0 :: int, h') \<and> is_array h' p n
        \<and> mset (array_contents h' p n) = mset (array_contents h p n)
        \<and> zero_prefix (zero_count (array_contents h p n)) (array_contents h' p n)"
    and v: "valid_input h p n"
  shows "\<exists>h1 h2. M h p n = Inr (0, h1) \<and> M h1 p n = Inr (0, h2)
           \<and> zero_prefix (zero_count (array_contents h p n)) (array_contents h1 p n)
           \<and> zero_prefix (zero_count (array_contents h p n)) (array_contents h2 p n)
           \<and> map (\<lambda>x. x = 0) (array_contents h2 p n) = map (\<lambda>x. x = 0) (array_contents h1 p n)"
proof -
  let ?z = "zero_count (array_contents h p n)"
  from post [OF v] obtain h1 where r1: "M h p n = Inr (0, h1)" and a1: "is_array h1 p n"
    and m1: "mset (array_contents h1 p n) = mset (array_contents h p n)"
    and z1: "zero_prefix ?z (array_contents h1 p n)"
    by blast
  from v a1 have v1: "valid_input h1 p n" by (simp add: valid_input_def)
  from post [OF v1] obtain h2 where r2: "M h1 p n = Inr (0, h2)"
    and z2: "zero_prefix (zero_count (array_contents h1 p n)) (array_contents h2 p n)"
    by blast
  from zero_count_mset [OF m1] z2 have z2': "zero_prefix ?z (array_contents h2 p n)" by simp
  have "map (\<lambda>x. x = 0) (array_contents h2 p n) = map (\<lambda>x. x = 0) (array_contents h1 p n)"
    using z1 z2' by (intro nth_equalityI) (simp_all add: zero_prefix_iff)
  with r1 r2 z1 z2' show ?thesis by blast
qed

text \<open>
  C7. For every valid input, applying the same mover twice succeeds both times and yields
  the same partition into zeros and non-zeros as applying it once: with \<open>z\<close> the zero
  count of the original array, the array after the second application, like the array
  after the first, holds zero below index \<open>z\<close> and a non-zero value from \<open>z\<close> on.
\<close>

theorem same_partition_twice:
  assumes "valid_input h array n"
  shows "(\<exists>h1 h2. ZeroesToBeginningRuntimeOptimized h array n = Inr (0, h1)
            \<and> ZeroesToBeginningRuntimeOptimized h1 array n = Inr (0, h2)
            \<and> zero_prefix (zero_count (array_contents h array n)) (array_contents h1 array n)
            \<and> zero_prefix (zero_count (array_contents h array n)) (array_contents h2 array n)
            \<and> map (\<lambda>x. x = 0) (array_contents h2 array n) = map (\<lambda>x. x = 0) (array_contents h1 array n))
       \<and> (\<exists>h1 h2. ZeroesToBeginningSpaceOptimized h array n = Inr (0, h1)
            \<and> ZeroesToBeginningSpaceOptimized h1 array n = Inr (0, h2)
            \<and> zero_prefix (zero_count (array_contents h array n)) (array_contents h1 array n)
            \<and> zero_prefix (zero_count (array_contents h array n)) (array_contents h2 array n)
            \<and> map (\<lambda>x. x = 0) (array_contents h2 array n) = map (\<lambda>x. x = 0) (array_contents h1 array n))"
proof (intro conjI mover_twice assms)
  fix g assume v: "valid_input g array n"
  from runtime_contents [OF v] obtain g' where r: "ZeroesToBeginningRuntimeOptimized g array n = Inr (0, g')"
    and a: "is_array g' array n"
    and c: "array_contents g' array n =
              replicate (zero_count (array_contents g array n)) 0
              @ filter (\<lambda>v. v \<noteq> 0) (array_contents g array n)"
    by blast
  have "mset (array_contents g' array n) = mset (array_contents g array n)"
    unfolding c by (rule mset_zeroes_first)
  moreover have "zero_prefix (zero_count (array_contents g array n)) (array_contents g' array n)"
    unfolding c by (rule zero_prefix_replicate) simp
  ultimately show "\<exists>h'. ZeroesToBeginningRuntimeOptimized g array n = Inr (0, h') \<and> is_array h' array n
        \<and> mset (array_contents h' array n) = mset (array_contents g array n)
        \<and> zero_prefix (zero_count (array_contents g array n)) (array_contents h' array n)"
    using r a by blast
next
  fix g assume v: "valid_input g array n"
  from space_result [OF v]
  show "\<exists>h'. ZeroesToBeginningSpaceOptimized g array n = Inr (0, h') \<and> is_array h' array n
        \<and> mset (array_contents h' array n) = mset (array_contents g array n)
        \<and> zero_prefix (zero_count (array_contents g array n)) (array_contents h' array n)"
    by blast
qed

theorem same_partition_twice_witness:
  "valid_input (heap_of 12 [6, 0, 0, 3, 0]) 12 5
   \<and> (\<exists>h1 h2. ZeroesToBeginningRuntimeOptimized (heap_of 12 [6, 0, 0, 3, 0]) 12 5 = Inr (0, h1)
         \<and> ZeroesToBeginningRuntimeOptimized h1 12 5 = Inr (0, h2)
         \<and> zero_prefix 3 (array_contents h1 12 5)
         \<and> zero_prefix 3 (array_contents h2 12 5)
         \<and> map (\<lambda>x. x = 0) (array_contents h2 12 5) = map (\<lambda>x. x = 0) (array_contents h1 12 5))
   \<and> (\<exists>h1 h2. ZeroesToBeginningSpaceOptimized (heap_of 12 [6, 0, 0, 3, 0]) 12 5 = Inr (0, h1)
         \<and> ZeroesToBeginningSpaceOptimized h1 12 5 = Inr (0, h2)
         \<and> zero_prefix 3 (array_contents h1 12 5)
         \<and> zero_prefix 3 (array_contents h2 12 5)
         \<and> map (\<lambda>x. x = 0) (array_contents h2 12 5) = map (\<lambda>x. x = 0) (array_contents h1 12 5))"
proof -
  have v: "valid_input (heap_of 12 [6, 0, 0, 3, 0]) 12 5"
    using valid_input_heap_of [of 12 "[6, 0, 0, 3, 0]"] by (simp add: NULL_def)
  have c: "array_contents (heap_of 12 [6, 0, 0, 3, 0]) 12 5 = [6, 0, 0, 3, 0]"
    using array_contents_heap_of [of 12 "[6, 0, 0, 3, 0]"] by simp
  have z: "zero_count (array_contents (heap_of 12 [6, 0, 0, 3, 0]) 12 5) = 3"
    by (simp add: c zero_count_def)
  from v same_partition_twice [OF v] show ?thesis
    by (simp only: z)
qed

end
